theory Spec2Isabelle
  imports Complex_Main
begin

section \<open>The expression engine of headers/Expression.h\<close>

text \<open>
  The header defines a class template over a numeric type T (instantiated with double
  and with std::complex of double), four node classes and the free function optimize.
  The node classes become one datatype. The numeric type and the library operations the
  templates call on it are taken as a parameter: a record of operations, one field per
  operation the source uses.
\<close>

subsection \<open>Enumerations and the numeric parameter\<close>

datatype Operation = PLUS | MINUS | MULT | DIV | POW

datatype Function = SIN | COS | LN | EXP

text \<open>
  Every exception of the header is a std::runtime_error; the model keeps its message.
  The messages are: Division by zero, Unknown operation, Unknown function.
\<close>

datatype error = runtime_error string

text \<open>
  The operations on T. \<open>is_complex\<close> is the compile-time test
  \<^verbatim>\<open>std::is_same_v\<close> of T against the complex type; \<open>T_of k\<close> is the conversion
  \<^verbatim>\<open>T(k)\<close> of an integer literal; value initialisation \<^verbatim>\<open>T()\<close>, which
  \<^verbatim>\<open>std::map::operator[]\<close> performs for a missing key, yields the same value as
  \<^verbatim>\<open>T(0)\<close> for both instantiations. \<open>T_gt\<close> and \<open>T_abs\<close> are used only in code that
  is compiled when T is not complex.
\<close>

record 'a numeric =
  is_complex :: bool
  T_of :: "int \<Rightarrow> 'a"
  T_add :: "'a \<Rightarrow> 'a \<Rightarrow> 'a"
  T_sub :: "'a \<Rightarrow> 'a \<Rightarrow> 'a"
  T_mul :: "'a \<Rightarrow> 'a \<Rightarrow> 'a"
  T_div :: "'a \<Rightarrow> 'a \<Rightarrow> 'a"
  T_pow :: "'a \<Rightarrow> 'a \<Rightarrow> 'a"
  T_eq :: "'a \<Rightarrow> 'a \<Rightarrow> bool"
  T_gt :: "'a \<Rightarrow> 'a \<Rightarrow> bool"
  T_abs :: "'a \<Rightarrow> 'a"
  T_sin :: "'a \<Rightarrow> 'a"
  T_cos :: "'a \<Rightarrow> 'a"
  T_log :: "'a \<Rightarrow> 'a"
  T_exp :: "'a \<Rightarrow> 'a"

subsection \<open>Expression nodes\<close>

datatype 'a Expression =
    ConstantExpression 'a
  | VarExpression string
  | MonoExpression "'a Expression" Function
  | BinaryExpression "'a Expression" "'a Expression" Operation

subsection \<open>eval\<close>

text \<open>
  \<^verbatim>\<open>eval\<close> takes the parameter map by reference and \<^verbatim>\<open>parameters[value]\<close> inserts a
  value-initialised entry for a missing key, so the model threads the map through and
  returns it. A thrown exception is \<open>Inl\<close>; the map keeps what was inserted before the
  throw. C++ leaves the order of the two operand evaluations in one expression (the
  operands of an arithmetic operator, the arguments of \<^verbatim>\<open>std::pow\<close>) unspecified; the
  model evaluates the left operand first. For DIV the source evaluates
  the right operand in the condition of the if statement, before anything else, and
  evaluates it again for the quotient.
\<close>

type_synonym 'a parameters = "string \<rightharpoonup> 'a"

type_synonym 'a eval_result = "(error + 'a) \<times> 'a parameters"

definition apply_Function :: "'a numeric \<Rightarrow> Function \<Rightarrow> 'a \<Rightarrow> 'a" where
  "apply_Function N f x =
     (case f of SIN \<Rightarrow> T_sin N x | COS \<Rightarrow> T_cos N x | LN \<Rightarrow> T_log N x | EXP \<Rightarrow> T_exp N x)"

definition apply_Operation :: "'a numeric \<Rightarrow> Operation \<Rightarrow> 'a \<Rightarrow> 'a \<Rightarrow> 'a" where
  "apply_Operation N op x y =
     (case op of PLUS \<Rightarrow> T_add N x y | MINUS \<Rightarrow> T_sub N x y | MULT \<Rightarrow> T_mul N x y
      | DIV \<Rightarrow> T_div N x y | POW \<Rightarrow> T_pow N x y)"

fun eval :: "'a numeric \<Rightarrow> 'a Expression \<Rightarrow> 'a parameters \<Rightarrow> 'a eval_result" where
  "eval N (ConstantExpression v) ps = (Inr v, ps)"
| "eval N (VarExpression x) ps =
     (case ps x of
        Some v \<Rightarrow> (Inr v, ps)
      | None \<Rightarrow> (Inr (T_of N 0), ps(x \<mapsto> T_of N 0)))"
| "eval N (MonoExpression e f) ps =
     (case eval N e ps of
        (Inl err, ps1) \<Rightarrow> (Inl err, ps1)
      | (Inr v, ps1) \<Rightarrow> (Inr (apply_Function N f v), ps1))"
| "eval N (BinaryExpression l r op) ps =
     (if op = DIV then
        (case eval N r ps of
           (Inl err, ps1) \<Rightarrow> (Inl err, ps1)
         | (Inr d, ps1) \<Rightarrow>
             if T_eq N d (T_of N 0) then (Inl (runtime_error ''Division by zero''), ps1)
             else
               (case eval N l ps1 of
                  (Inl err, ps2) \<Rightarrow> (Inl err, ps2)
                | (Inr x, ps2) \<Rightarrow>
                    (case eval N r ps2 of
                       (Inl err, ps3) \<Rightarrow> (Inl err, ps3)
                     | (Inr y, ps3) \<Rightarrow> (Inr (T_div N x y), ps3))))
      else
        (case eval N l ps of
           (Inl err, ps1) \<Rightarrow> (Inl err, ps1)
         | (Inr x, ps1) \<Rightarrow>
             (case eval N r ps1 of
                (Inl err, ps2) \<Rightarrow> (Inl err, ps2)
              | (Inr y, ps2) \<Rightarrow> (Inr (apply_Operation N op x y), ps2))))"

subsection \<open>diff\<close>

text \<open>
  \<^verbatim>\<open>diff\<close> builds new nodes over the operands of the node it differentiates. Both
  operand derivatives are computed before the switch on the operation, so an exception of
  either propagates. For POW the whole body is under \<^verbatim>\<open>if constexpr\<close> on T not being
  complex; when T is complex the case is empty and control falls through to the default
  label, which throws.
\<close>

definition diff_pow ::
  "'a numeric \<Rightarrow> 'a Expression \<Rightarrow> 'a Expression \<Rightarrow> 'a Expression \<Rightarrow> 'a Expression
     \<Rightarrow> 'a Expression" where
  "diff_pow N left right left_diff right_diff =
     (case right of
        ConstantExpression c \<Rightarrow>
          if T_gt N c (T_of N 1) then
            BinaryExpression right
              (BinaryExpression
                 (BinaryExpression left (ConstantExpression (T_sub N c (T_of N 1))) POW)
                 left_diff MULT)
              MULT
          else if T_eq N c (T_of N 1) then ConstantExpression (T_of N 1)
          else
            BinaryExpression
              (BinaryExpression right left_diff MULT)
              (BinaryExpression left
                 (ConstantExpression (T_add N (T_abs N c) (T_of N 1))) POW)
              DIV
      | _ \<Rightarrow>
          (case left of
             ConstantExpression a \<Rightarrow>
               BinaryExpression right_diff
                 (BinaryExpression (BinaryExpression left right POW)
                    (MonoExpression left LN) MULT)
                 MULT
           | _ \<Rightarrow>
               BinaryExpression
                 (BinaryExpression right_diff (MonoExpression left LN) MULT)
                 (BinaryExpression right (BinaryExpression left_diff left DIV) MULT)
                 PLUS))"

fun diff :: "'a numeric \<Rightarrow> 'a Expression \<Rightarrow> string \<Rightarrow> error + 'a Expression" where
  "diff N (ConstantExpression v) str = Inr (ConstantExpression (T_of N 0))"
| "diff N (VarExpression x) str =
     (if str = x then Inr (ConstantExpression (T_of N 1))
      else Inr (ConstantExpression (T_of N 0)))"
| "diff N (MonoExpression e f) str =
     (case diff N e str of
        Inl err \<Rightarrow> Inl err
      | Inr expr_diff \<Rightarrow>
          (case f of
             SIN \<Rightarrow> Inr (BinaryExpression (MonoExpression e COS) expr_diff MULT)
           | COS \<Rightarrow>
               Inr (BinaryExpression
                      (BinaryExpression (ConstantExpression (T_of N (- 1)))
                         (MonoExpression e SIN) MULT)
                      expr_diff MULT)
           | LN \<Rightarrow> Inr (BinaryExpression expr_diff e DIV)
           | EXP \<Rightarrow> Inr (BinaryExpression (MonoExpression e EXP) expr_diff MULT)))"
| "diff N (BinaryExpression left right op) str =
     (case diff N left str of
        Inl err \<Rightarrow> Inl err
      | Inr left_diff \<Rightarrow>
          (case diff N right str of
             Inl err \<Rightarrow> Inl err
           | Inr right_diff \<Rightarrow>
               (case op of
                  PLUS \<Rightarrow> Inr (BinaryExpression left_diff right_diff PLUS)
                | MINUS \<Rightarrow> Inr (BinaryExpression left_diff right_diff MINUS)
                | MULT \<Rightarrow>
                    Inr (BinaryExpression
                           (BinaryExpression left_diff right MULT)
                           (BinaryExpression left right_diff MULT) PLUS)
                | DIV \<Rightarrow>
                    Inr (BinaryExpression
                           (BinaryExpression
                              (BinaryExpression left_diff right MULT)
                              (BinaryExpression left right_diff MULT) MINUS)
                           (BinaryExpression right (ConstantExpression (T_of N 2)) POW)
                           DIV)
                | POW \<Rightarrow>
                    if is_complex N then Inl (runtime_error ''Unknown operation'')
                    else Inr (diff_pow N left right left_diff right_diff))))"

subsection \<open>to_string\<close>

text \<open>
  Printing a constant goes through the double components of the value. The operations on
  double that \<^verbatim>\<open>to_string_optimized\<close> and \<^verbatim>\<open>ConstantExpression::to_string\<close> use are a
  second parameter; \<open>'d\<close> stands for double. \<open>T_real\<close> is \<^verbatim>\<open>value.real()\<close> for the
  complex instantiation and the value itself for the double one.
\<close>

record ('a, 'd) printer =
  T_real :: "'a \<Rightarrow> 'd"
  T_imag :: "'a \<Rightarrow> 'd"
  d_zero :: 'd
  d_neg :: "'d \<Rightarrow> 'd"
  d_eq :: "'d \<Rightarrow> 'd \<Rightarrow> bool"
  d_less :: "'d \<Rightarrow> 'd \<Rightarrow> bool"
  d_ge :: "'d \<Rightarrow> 'd \<Rightarrow> bool"
  d_floor :: "'d \<Rightarrow> 'd"
  d_long :: "'d \<Rightarrow> int"
  d_to_string :: "'d \<Rightarrow> string"

text \<open>\<^verbatim>\<open>std::to_string\<close> of a long: the decimal digits, with a minus sign when negative.\<close>

fun digits :: "nat \<Rightarrow> string" where
  "digits n = (if n < 10 then [''0123456789'' ! n]
               else digits (n div 10) @ [''0123456789'' ! (n mod 10)])"

definition long_to_string :: "int \<Rightarrow> string" where
  "long_to_string i = (if i < 0 then ''-'' @ digits (nat (- i)) else digits (nat i))"

definition to_string_optimized :: "('a, 'd) printer \<Rightarrow> 'd \<Rightarrow> string" where
  "to_string_optimized P a =
     (let a' = d_floor P a
      in if d_eq P a a' then long_to_string (d_long P a') else d_to_string P a)"

definition constant_to_string :: "'a numeric \<Rightarrow> ('a, 'd) printer \<Rightarrow> 'a \<Rightarrow> string" where
  "constant_to_string N P v =
     (if is_complex N then
        (let re = T_real P v; im = T_imag P v
         in if \<not> d_eq P re (d_zero P) \<and> \<not> d_eq P im (d_zero P) then
              (if d_ge P im (d_zero P) then
                 ''('' @ to_string_optimized P re @ '' + '' @ to_string_optimized P im @ ''i)''
               else
                 ''('' @ to_string_optimized P re @ '' - ''
                   @ to_string_optimized P (d_neg P im) @ ''i)'')
            else if d_eq P re (d_zero P) \<and> d_eq P im (d_zero P) then
              to_string_optimized P (d_zero P)
            else if d_eq P re (d_zero P) then to_string_optimized P im @ ''i''
            else to_string_optimized P re)
      else
        (if d_less P (T_real P v) (d_zero P) then
           ''('' @ to_string_optimized P (T_real P v) @ '')''
         else to_string_optimized P (T_real P v)))"

definition Function_name :: "Function \<Rightarrow> string" where
  "Function_name f = (case f of SIN \<Rightarrow> ''sin'' | COS \<Rightarrow> ''cos'' | LN \<Rightarrow> ''ln'' | EXP \<Rightarrow> ''exp'')"

fun is_Binary :: "'a Expression \<Rightarrow> bool" where
  "is_Binary (BinaryExpression l r op) = True"
| "is_Binary _ = False"

fun to_string :: "'a numeric \<Rightarrow> ('a, 'd) printer \<Rightarrow> 'a Expression \<Rightarrow> string" where
  "to_string N P (ConstantExpression v) = constant_to_string N P v"
| "to_string N P (VarExpression x) = x"
| "to_string N P (MonoExpression e f) =
     (if is_Binary e then Function_name f @ to_string N P e
      else Function_name f @ ''('' @ to_string N P e @ '')'')"
| "to_string N P (BinaryExpression left right op) =
     (case op of
        PLUS \<Rightarrow> ''('' @ to_string N P left @ '' + '' @ to_string N P right @ '')''
      | MINUS \<Rightarrow> ''('' @ to_string N P left @ '' - '' @ to_string N P right @ '')''
      | MULT \<Rightarrow> ''('' @ to_string N P left @ '' * '' @ to_string N P right @ '')''
      | DIV \<Rightarrow> ''('' @ to_string N P left @ '' / '' @ to_string N P right @ '')''
      | POW \<Rightarrow> ''('' @ to_string N P left @ ''^'' @ to_string N P right @ '')'')"

subsection \<open>optimize\<close>

text \<open>
  \<^verbatim>\<open>optimize\<close> receives a shared pointer \<^verbatim>\<open>expr\<close>, assigns the optimised operands to
  the fields of the node it points to, and then either leaves \<^verbatim>\<open>expr\<close> alone, or
  redirects it to an operand or to a newly made constant, or overwrites the fields
  \<^verbatim>\<open>op\<close> and \<^verbatim>\<open>left\<close> of the node. It returns \<^verbatim>\<open>expr\<close>.

  This section gives the value of the returned expression for an argument whose nodes are
  not shared. The local state of one call on a binary node is a \<open>frame\<close>: what
  \<^verbatim>\<open>expr\<close> points to (\<open>This\<close> node, or \<open>That\<close> other expression) and the current fields
  of the node. The locals \<^verbatim>\<open>left\<close> and \<^verbatim>\<open>right\<close> are the results of the two dynamic
  casts to a constant; they are computed once, after the operands are assigned, and are
  not recomputed when the node's fields are overwritten later. The two if statements on
  the operation run one after the other, each reading the current \<^verbatim>\<open>binary->op\<close>.
\<close>

datatype 'a target = This | That "'a Expression"

record 'a frame =
  expr :: "'a target"
  binary_left :: "'a Expression"
  binary_right :: "'a Expression"
  binary_op :: Operation

definition resolve :: "'a frame \<Rightarrow> 'a Expression" where
  "resolve s =
     (case expr s of
        This \<Rightarrow> BinaryExpression (binary_left s) (binary_right s) (binary_op s)
      | That e \<Rightarrow> e)"

fun as_constant :: "'a Expression \<Rightarrow> 'a option" where
  "as_constant (ConstantExpression v) = Some v"
| "as_constant _ = None"

text \<open>
  The statement \<^verbatim>\<open>expr = make_shared(T(expr->eval(map)))\<close> with an empty map: \<^verbatim>\<open>eval\<close>
  runs on whatever \<^verbatim>\<open>expr\<close> points to at that moment and may throw.
\<close>

definition fold_expr :: "'a numeric \<Rightarrow> 'a frame \<Rightarrow> error + 'a frame" where
  "fold_expr N s =
     (case fst (eval N (resolve s) Map.empty) of
        Inl err \<Rightarrow> Inl err
      | Inr v \<Rightarrow> Inr (s\<lparr>expr := That (ConstantExpression v)\<rparr>))"

definition plus_minus_block ::
  "'a numeric \<Rightarrow> 'a option \<Rightarrow> 'a option \<Rightarrow> 'a frame \<Rightarrow> error + 'a frame" where
  "plus_minus_block N left right s =
     (if binary_op s = PLUS \<or> binary_op s = MINUS then
        (case (left, right) of
           (Some a, Some b) \<Rightarrow>
             if T_eq N a (T_of N 0) \<or> T_eq N b (T_of N 0) then fold_expr N s else Inr s
         | (Some a, None) \<Rightarrow>
             if T_eq N a (T_of N 0) then
               (if binary_op s = MINUS then
                  Inr (s\<lparr>binary_op := MULT,
                         binary_left := ConstantExpression (T_of N (- 1))\<rparr>)
                else Inr (s\<lparr>expr := That (binary_right s)\<rparr>))
             else Inr s
         | (None, Some b) \<Rightarrow>
             if T_eq N b (T_of N 0) then Inr (s\<lparr>expr := That (binary_left s)\<rparr>) else Inr s
         | (None, None) \<Rightarrow> Inr s)
      else Inr s)"

text \<open>
  The first test of the both-constants branch of the MULT and DIV block: the operands
  contain a zero.
\<close>

definition zero_block :: "'a numeric \<Rightarrow> 'a \<Rightarrow> 'a \<Rightarrow> 'a frame \<Rightarrow> error + 'a frame" where
  "zero_block N a b s =
     (if T_eq N a (T_of N 0) \<or> T_eq N b (T_of N 0) then
        (if binary_op s = MULT then
           Inr (s\<lparr>expr := That (ConstantExpression (T_of N 0))\<rparr>)
         else if binary_op s = DIV then
           (if T_eq N b (T_of N 0) then Inl (runtime_error ''Division by zero'')
            else if T_eq N a (T_of N 0) then
              Inr (s\<lparr>expr := That (ConstantExpression (T_of N 0))\<rparr>)
            else Inr s)
         else Inr s)
      else Inr s)"

definition mult_div_block ::
  "'a numeric \<Rightarrow> 'a option \<Rightarrow> 'a option \<Rightarrow> 'a frame \<Rightarrow> error + 'a frame" where
  "mult_div_block N left right s =
     (if binary_op s = MULT \<or> binary_op s = DIV then
        (case (left, right) of
           (Some a, Some b) \<Rightarrow>
             (case zero_block N a b s of
                Inl err \<Rightarrow> Inl err
              | Inr s1 \<Rightarrow>
                  if T_eq N a (T_of N 1) \<or> T_eq N b (T_of N 1) then fold_expr N s1
                  else Inr s1)
         | (Some a, None) \<Rightarrow>
             (let s1 = (if T_eq N a (T_of N 1) then
                          (if binary_op s = MULT then s\<lparr>expr := That (binary_right s)\<rparr>
                           else s)
                        else s)
              in Inr (if T_eq N a (T_of N 0)
                      then s1\<lparr>expr := That (ConstantExpression (T_of N 0))\<rparr> else s1))
         | (None, Some b) \<Rightarrow>
             (let s1 = (if T_eq N b (T_of N 1) then s\<lparr>expr := That (binary_left s)\<rparr>
                        else s)
              in Inr (if T_eq N b (T_of N 0)
                      then s1\<lparr>expr := That (ConstantExpression (T_of N 0))\<rparr> else s1))
         | (None, None) \<Rightarrow> Inr s)
      else Inr s)"

definition rewrite_binary ::
  "'a numeric \<Rightarrow> 'a Expression \<Rightarrow> 'a Expression \<Rightarrow> Operation \<Rightarrow> error + 'a Expression" where
  "rewrite_binary N l r op =
     (let left = as_constant l; right = as_constant r;
          s = \<lparr>expr = This, binary_left = l, binary_right = r, binary_op = op\<rparr>
      in case plus_minus_block N left right s of
           Inl err \<Rightarrow> Inl err
         | Inr s1 \<Rightarrow>
             (case mult_div_block N left right s1 of
                Inl err \<Rightarrow> Inl err
              | Inr s2 \<Rightarrow> Inr (resolve s2)))"

fun optimize :: "'a numeric \<Rightarrow> 'a Expression \<Rightarrow> error + 'a Expression" where
  "optimize N (ConstantExpression v) = Inr (ConstantExpression v)"
| "optimize N (VarExpression x) = Inr (VarExpression x)"
| "optimize N (MonoExpression e f) =
     (case optimize N e of
        Inl err \<Rightarrow> Inl err
      | Inr e' \<Rightarrow> Inr (MonoExpression e' f))"
| "optimize N (BinaryExpression l r op) =
     (case optimize N l of
        Inl err \<Rightarrow> Inl err
      | Inr l' \<Rightarrow>
          (case optimize N r of
             Inl err \<Rightarrow> Inl err
           | Inr r' \<Rightarrow> rewrite_binary N l' r' op))"

subsection \<open>The two instantiations\<close>

text \<open>
  The header is instantiated with double and with the complex numbers over double. The
  records below are these instantiations with the real and the complex numbers in place of
  the floating-point ones: they agree with the machine arithmetic wherever the machine
  result is exact, which holds at the small integers of the concrete inputs used in this
  theory. \<open>std::pow\<close> and the complex logarithm are given by their usual formulas.
\<close>

definition pow_real :: "real \<Rightarrow> real \<Rightarrow> real" where
  "pow_real x y =
     (if y = of_int \<lfloor>y\<rfloor> then (if 0 \<le> y then x ^ nat \<lfloor>y\<rfloor> else 1 / x ^ nat \<lfloor>- y\<rfloor>)
      else x powr y)"

definition double_numeric :: "real numeric" where
  "double_numeric =
     \<lparr>is_complex = False, T_of = of_int, T_add = (+), T_sub = (-), T_mul = (\<lambda>x y. x * y),
      T_div = (/), T_pow = pow_real, T_eq = (=), T_gt = (\<lambda>x y. y < x), T_abs = abs,
      T_sin = sin, T_cos = cos, T_log = ln, T_exp = exp\<rparr>"

definition log_complex :: "complex \<Rightarrow> complex" where
  "log_complex z = Complex (ln (cmod z)) (Arg z)"

definition pow_complex :: "complex \<Rightarrow> complex \<Rightarrow> complex" where
  "pow_complex z w = (if z = 0 then (if w = 0 then 1 else 0) else exp (w * log_complex z))"

definition complex_numeric :: "complex numeric" where
  "complex_numeric =
     \<lparr>is_complex = True, T_of = of_int, T_add = (+), T_sub = (-), T_mul = (\<lambda>x y. x * y),
      T_div = (/), T_pow = pow_complex, T_eq = (=), T_gt = (\<lambda>x y. False),
      T_abs = (\<lambda>z. of_real (cmod z)),
      T_sin = sin, T_cos = cos, T_log = log_complex, T_exp = exp\<rparr>"

text \<open>
  \<^verbatim>\<open>std::to_string\<close> of a double prints six decimals, rounding to nearest with ties to
  even.
\<close>

definition round_half_even :: "real \<Rightarrow> int" where
  "round_half_even x =
     (let f = \<lfloor>x\<rfloor>; d = x - of_int f
      in if d < 1 / 2 then f else if 1 / 2 < d then f + 1 else if even f then f else f + 1)"

definition fixed6 :: "real \<Rightarrow> string" where
  "fixed6 a =
     (let q = nat (round_half_even (\<bar>a\<bar> * 1000000)); frac = digits (q mod 1000000)
      in (if a < 0 then ''-'' else []) @ digits (q div 1000000) @ ''.''
           @ replicate (6 - length frac) (CHR ''0'') @ frac)"

definition double_printer :: "(real, real) printer" where
  "double_printer =
     \<lparr>T_real = (\<lambda>x. x), T_imag = (\<lambda>x. 0), d_zero = 0, d_neg = uminus, d_eq = (=),
      d_less = (<), d_ge = (\<lambda>x y. y \<le> x), d_floor = (\<lambda>x. of_int \<lfloor>x\<rfloor>), d_long = floor,
      d_to_string = fixed6\<rparr>"

definition complex_printer :: "(complex, real) printer" where
  "complex_printer =
     \<lparr>T_real = Re, T_imag = Im, d_zero = 0, d_neg = uminus, d_eq = (=),
      d_less = (<), d_ge = (\<lambda>x y. y \<le> x), d_floor = (\<lambda>x. of_int \<lfloor>x\<rfloor>), d_long = floor,
      d_to_string = fixed6\<rparr>"

subsection \<open>Notions used in the statements\<close>

text \<open>The variable names that occur in an expression.\<close>

fun variables :: "'a Expression \<Rightarrow> string set" where
  "variables (ConstantExpression v) = {}"
| "variables (VarExpression x) = {x}"
| "variables (MonoExpression e f) = variables e"
| "variables (BinaryExpression l r op) = variables l \<union> variables r"

text \<open>
  The operator symbols as the specification lists them. This definition follows the
  specification's words, not the source; it is compared with \<open>to_string\<close> below.
\<close>

definition spec_opSymbol :: "Operation \<Rightarrow> string" where
  "spec_opSymbol op =
     (case op of PLUS \<Rightarrow> ''+'' | MINUS \<Rightarrow> ''-'' | MULT \<Rightarrow> ''*'' | DIV \<Rightarrow> ''/'' | POW \<Rightarrow> ''^'')"





subsection \<open>optimize on shared nodes\<close>

text \<open>
  Expressions are held through \<^verbatim>\<open>std::shared_ptr\<close>, so one node can be an operand of
  several parents, and \<^verbatim>\<open>optimize\<close> assigns to the fields of the nodes it visits. To
  state what a call does to nodes that already exist, this section models the store: a
  heap is the list of the nodes allocated so far, a pointer is an index into it, and
  \<^verbatim>\<open>std::make_shared\<close> appends a node and returns its index. Nodes are never freed in the
  model; a node that C++ would free is one no pointer of the model reaches.

  A store built by the constructors has no cycle, but the type does not say so; the
  recursion over pointers therefore carries fuel, and \<open>None\<close> means the fuel ran out (or
  a pointer was out of range, which shared pointers exclude). The pointer variable
  \<^verbatim>\<open>expr\<close> of the source is written \<open>ep\<close> here, \<open>expr\<close> being a field of the frame
  above.
\<close>

type_synonym addr = nat

datatype 'a node =
    ConstantNode 'a
  | VarNode string
  | MonoNode addr Function
  | BinaryNode addr addr Operation

type_synonym 'a heap = "'a node list"

text \<open>The expression a pointer denotes, read off the store.\<close>

fun tree_at :: "nat \<Rightarrow> 'a heap \<Rightarrow> addr \<Rightarrow> 'a Expression option" where
  "tree_at 0 h a = None"
| "tree_at (Suc k) h a =
     (if length h \<le> a then None
      else
        (case h ! a of
           ConstantNode v \<Rightarrow> Some (ConstantExpression v)
         | VarNode x \<Rightarrow> Some (VarExpression x)
         | MonoNode e f \<Rightarrow>
             (case tree_at k h e of
                None \<Rightarrow> None
              | Some t \<Rightarrow> Some (MonoExpression t f))
         | BinaryNode l r op \<Rightarrow>
             (case tree_at k h l of
                None \<Rightarrow> None
              | Some t1 \<Rightarrow>
                  (case tree_at k h r of
                     None \<Rightarrow> None
                   | Some t2 \<Rightarrow> Some (BinaryExpression t1 t2 op)))))"

text \<open>Assignments to the fields of a node, through a pointer to it.\<close>

definition set_expr :: "addr \<Rightarrow> addr \<Rightarrow> 'a heap \<Rightarrow> 'a heap" where
  "set_expr a e' h = (case h ! a of MonoNode e f \<Rightarrow> h[a := MonoNode e' f] | _ \<Rightarrow> h)"

definition set_left :: "addr \<Rightarrow> addr \<Rightarrow> 'a heap \<Rightarrow> 'a heap" where
  "set_left a l' h = (case h ! a of BinaryNode l r op \<Rightarrow> h[a := BinaryNode l' r op] | _ \<Rightarrow> h)"

definition set_right :: "addr \<Rightarrow> addr \<Rightarrow> 'a heap \<Rightarrow> 'a heap" where
  "set_right a r' h = (case h ! a of BinaryNode l r op \<Rightarrow> h[a := BinaryNode l r' op] | _ \<Rightarrow> h)"

definition set_op :: "addr \<Rightarrow> Operation \<Rightarrow> 'a heap \<Rightarrow> 'a heap" where
  "set_op a op' h = (case h ! a of BinaryNode l r op \<Rightarrow> h[a := BinaryNode l r op'] | _ \<Rightarrow> h)"

text \<open>
  The dynamic cast of a pointer to a constant node, together with the value that
  \<^verbatim>\<open>eval\<close> reads from it. Nothing assigns to the value of a constant node, so reading it
  at the cast or later is the same.
\<close>

definition constant_at :: "'a heap \<Rightarrow> addr \<Rightarrow> 'a option" where
  "constant_at h p = (case h ! p of ConstantNode v \<Rightarrow> Some v | _ \<Rightarrow> None)"

type_synonym 'a optimize_result = "((error + addr) \<times> 'a heap) option"

text \<open>
  \<^verbatim>\<open>expr = make_shared(T(expr->eval(map)))\<close>: \<^verbatim>\<open>eval\<close> only reads nodes, so its result on
  a pointer is its result on the expression the pointer denotes.
\<close>

definition fold_at :: "'a numeric \<Rightarrow> nat \<Rightarrow> addr \<Rightarrow> 'a heap \<Rightarrow> 'a optimize_result" where
  "fold_at N k ep h =
     (case tree_at k h ep of
        None \<Rightarrow> None
      | Some t \<Rightarrow>
          (case fst (eval N t Map.empty) of
             Inl err \<Rightarrow> Some (Inl err, h)
           | Inr v \<Rightarrow> Some (Inr (length h), h @ [ConstantNode v])))"

definition plus_minus_at ::
  "'a numeric \<Rightarrow> nat \<Rightarrow> addr \<Rightarrow> 'a option \<Rightarrow> 'a option \<Rightarrow> addr \<Rightarrow> 'a heap
     \<Rightarrow> 'a optimize_result" where
  "plus_minus_at N k binary left right ep h =
     (case h ! binary of
        BinaryNode bl br op \<Rightarrow>
          if op = PLUS \<or> op = MINUS then
            (case (left, right) of
               (Some a, Some b) \<Rightarrow>
                 if T_eq N a (T_of N 0) \<or> T_eq N b (T_of N 0) then fold_at N k ep h
                 else Some (Inr ep, h)
             | (Some a, None) \<Rightarrow>
                 if T_eq N a (T_of N 0) then
                   (if op = MINUS then
                      Some (Inr ep,
                            set_left binary (length h)
                              (set_op binary MULT h @ [ConstantNode (T_of N (- 1))]))
                    else Some (Inr br, h))
                 else Some (Inr ep, h)
             | (None, Some b) \<Rightarrow>
                 if T_eq N b (T_of N 0) then Some (Inr bl, h) else Some (Inr ep, h)
             | (None, None) \<Rightarrow> Some (Inr ep, h))
          else Some (Inr ep, h)
      | _ \<Rightarrow> None)"

text \<open>
  The first test of the both-constants branch of the MULT and DIV block: the operands
  contain a zero.
\<close>

definition zero_block_at ::
  "'a numeric \<Rightarrow> Operation \<Rightarrow> 'a \<Rightarrow> 'a \<Rightarrow> addr \<Rightarrow> 'a heap \<Rightarrow> 'a optimize_result" where
  "zero_block_at N op a b ep h =
     (if T_eq N a (T_of N 0) \<or> T_eq N b (T_of N 0) then
        (if op = MULT then Some (Inr (length h), h @ [ConstantNode (T_of N 0)])
         else if op = DIV then
           (if T_eq N b (T_of N 0) then Some (Inl (runtime_error ''Division by zero''), h)
            else if T_eq N a (T_of N 0) then
              Some (Inr (length h), h @ [ConstantNode (T_of N 0)])
            else Some (Inr ep, h))
         else Some (Inr ep, h))
      else Some (Inr ep, h))"

definition mult_div_at ::
  "'a numeric \<Rightarrow> nat \<Rightarrow> addr \<Rightarrow> 'a option \<Rightarrow> 'a option \<Rightarrow> addr \<Rightarrow> 'a heap
     \<Rightarrow> 'a optimize_result" where
  "mult_div_at N k binary left right ep h =
     (case h ! binary of
        BinaryNode bl br op \<Rightarrow>
          if op = MULT \<or> op = DIV then
            (case (left, right) of
               (Some a, Some b) \<Rightarrow>
                 (case zero_block_at N op a b ep h of
                    None \<Rightarrow> None
                  | Some (Inl err, h1) \<Rightarrow> Some (Inl err, h1)
                  | Some (Inr ep1, h1) \<Rightarrow>
                      if T_eq N a (T_of N 1) \<or> T_eq N b (T_of N 1) then fold_at N k ep1 h1
                      else Some (Inr ep1, h1))
             | (Some a, None) \<Rightarrow>
                 (let ep1 = (if T_eq N a (T_of N 1) then (if op = MULT then br else ep)
                             else ep)
                  in if T_eq N a (T_of N 0)
                     then Some (Inr (length h), h @ [ConstantNode (T_of N 0)])
                     else Some (Inr ep1, h))
             | (None, Some b) \<Rightarrow>
                 (let ep1 = (if T_eq N b (T_of N 1) then bl else ep)
                  in if T_eq N b (T_of N 0)
                     then Some (Inr (length h), h @ [ConstantNode (T_of N 0)])
                     else Some (Inr ep1, h))
             | (None, None) \<Rightarrow> Some (Inr ep, h))
          else Some (Inr ep, h)
      | _ \<Rightarrow> None)"

text \<open>
  The body of the second if statement of \<^verbatim>\<open>optimize\<close>, after both operands have been
  assigned: the two casts, then the two blocks in sequence. \<^verbatim>\<open>expr\<close> starts as the
  pointer to the node.
\<close>

definition rewrite_at :: "'a numeric \<Rightarrow> nat \<Rightarrow> addr \<Rightarrow> 'a heap \<Rightarrow> 'a optimize_result" where
  "rewrite_at N k binary h =
     (case h ! binary of
        BinaryNode bl br op \<Rightarrow>
          (let left = constant_at h bl; right = constant_at h br
           in case plus_minus_at N k binary left right binary h of
                None \<Rightarrow> None
              | Some (Inl err, h1) \<Rightarrow> Some (Inl err, h1)
              | Some (Inr ep1, h1) \<Rightarrow> mult_div_at N k binary left right ep1 h1)
      | _ \<Rightarrow> None)"

fun optimize_at :: "'a numeric \<Rightarrow> nat \<Rightarrow> addr \<Rightarrow> 'a heap \<Rightarrow> 'a optimize_result" where
  "optimize_at N 0 ep h = None"
| "optimize_at N (Suc k) ep h =
     (if length h \<le> ep then None
      else
        (case h ! ep of
           ConstantNode v \<Rightarrow> Some (Inr ep, h)
         | VarNode x \<Rightarrow> Some (Inr ep, h)
         | MonoNode e f \<Rightarrow>
             (case optimize_at N k e h of
                None \<Rightarrow> None
              | Some (Inl err, h1) \<Rightarrow> Some (Inl err, h1)
              | Some (Inr e', h1) \<Rightarrow> Some (Inr ep, set_expr ep e' h1))
         | BinaryNode l r op \<Rightarrow>
             (case optimize_at N k l h of
                None \<Rightarrow> None
              | Some (Inl err, h1) \<Rightarrow> Some (Inl err, h1)
              | Some (Inr l', h1) \<Rightarrow>
                  (let h2 = set_left ep l' h1
                   in case h2 ! ep of
                        BinaryNode l2 r2 op2 \<Rightarrow>
                          (case optimize_at N k r2 h2 of
                             None \<Rightarrow> None
                           | Some (Inl err, h3) \<Rightarrow> Some (Inl err, h3)
                           | Some (Inr r', h3) \<Rightarrow>
                               rewrite_at N (Suc k) ep (set_right ep r' h3))
                      | _ \<Rightarrow> None))))"


subsection \<open>Notions used in the statements about the store\<close>

text \<open>
  The pointers a node holds; the nodes reachable from a pointer by following them; and
  what a node keeps when only its pointers or its operation are assigned: a constant or a
  variable stays as it is, a function node keeps its function, a binary node stays binary.
\<close>

fun children :: "'a node \<Rightarrow> addr set" where
  "children (MonoNode e f) = {e}"
| "children (BinaryNode l r op) = {l, r}"
| "children _ = {}"

definition edges :: "'a heap \<Rightarrow> (addr \<times> addr) set" where
  "edges h = {(a, c). a < length h \<and> c \<in> children (h ! a)}"

definition reachable :: "'a heap \<Rightarrow> addr \<Rightarrow> addr set" where
  "reachable h a = (edges h)\<^sup>* `` {a}"

fun same_kind :: "'a node \<Rightarrow> 'a node \<Rightarrow> bool" where
  "same_kind (MonoNode e f) n' = (case n' of MonoNode e' f' \<Rightarrow> f' = f | _ \<Rightarrow> False)"
| "same_kind (BinaryNode l r op) n' = (case n' of BinaryNode l' r' op' \<Rightarrow> True | _ \<Rightarrow> False)"
| "same_kind n n' = (n' = n)"

text \<open>
  Invariants of the proofs. \<open>grows\<close>: the later store extends the earlier one by
  constants, keeps the kind of every node, and the pointers of an old node lead to nodes
  that were reachable from it or are new. \<open>frame\<close>: nodes outside a set are unchanged.
  \<open>post\<close> puts them together with the place of the returned pointer. \<open>deep\<close>: a
  pointer that denoted an expression within some fuel still does, within the same fuel.
  \<open>shallow\<close>: one pointer needs no more fuel than another.
\<close>

definition grows :: "'a heap \<Rightarrow> 'a heap \<Rightarrow> bool" where
  "grows h h' \<longleftrightarrow>
     length h \<le> length h'
     \<and> (\<forall>b<length h.
          same_kind (h ! b) (h' ! b)
          \<and> (\<forall>c\<in>children (h' ! b). c \<in> reachable h b \<or> length h \<le> c))
     \<and> (\<forall>b. length h \<le> b \<and> b < length h' \<longrightarrow> (\<exists>v. h' ! b = ConstantNode v))"

definition frame :: "addr set \<Rightarrow> 'a heap \<Rightarrow> 'a heap \<Rightarrow> bool" where
  "frame R h h' \<longleftrightarrow> (\<forall>b<length h. b \<notin> R \<longrightarrow> h' ! b = h ! b)"

definition post ::
  "addr set \<Rightarrow> addr set \<Rightarrow> 'a heap \<Rightarrow> (error + addr) \<Rightarrow> 'a heap \<Rightarrow> bool" where
  "post F S h res h' \<longleftrightarrow>
     grows h h' \<and> frame F h h' \<and> (\<forall>p. res = Inr p \<longrightarrow> p \<in> S \<or> length h \<le> p)"

definition deep :: "'a heap \<Rightarrow> 'a heap \<Rightarrow> bool" where
  "deep h h' \<longleftrightarrow> (\<forall>j b. tree_at j h b \<noteq> None \<longrightarrow> tree_at j h' b \<noteq> None)"

definition shallow :: "'a heap \<Rightarrow> addr \<Rightarrow> addr \<Rightarrow> bool" where
  "shallow h a p \<longleftrightarrow> (\<forall>j. tree_at j h a \<noteq> None \<longrightarrow> tree_at j h p \<noteq> None)"

definition tpost :: "addr \<Rightarrow> 'a heap \<Rightarrow> (error + addr) \<Rightarrow> 'a heap \<Rightarrow> bool" where
  "tpost a h res h' \<longleftrightarrow> deep h h' \<and> (\<forall>p. res = Inr p \<longrightarrow> shallow h' a p)"

text \<open>
  The nodes that the traversal of an expression visits, in order and with repetitions. A
  pointer denotes an expression with no shared node exactly when this list has no
  duplicates.
\<close>

fun addrs :: "nat \<Rightarrow> 'a heap \<Rightarrow> addr \<Rightarrow> addr list" where
  "addrs 0 h a = []"
| "addrs (Suc k) h a =
     a # (case h ! a of
            MonoNode e f \<Rightarrow> addrs k h e
          | BinaryNode l r op \<Rightarrow> addrs k h l @ addrs k h r
          | _ \<Rightarrow> [])"

text \<open>
  The correspondence used to compare the two models of one call on a binary node: the
  store holds the node with the operands and the operation of the frame, no node under it
  is shared, and the pointer \<^verbatim>\<open>expr\<close> is the node itself or denotes the expression the
  frame redirected it to. \<open>rel\<close> lifts it to the results of a block.
\<close>

definition sim :: "nat \<Rightarrow> addr \<Rightarrow> 'a heap \<Rightarrow> addr \<Rightarrow> 'a frame \<Rightarrow> bool" where
  "sim k a h ep s \<longleftrightarrow>
     a < length h
     \<and> (\<exists>bl br. h ! a = BinaryNode bl br (binary_op s)
           \<and> tree_at k h bl = Some (binary_left s) \<and> tree_at k h br = Some (binary_right s))
     \<and> distinct (addrs (Suc k) h a)
     \<and> (case expr s of
          This \<Rightarrow> ep = a
        | That e \<Rightarrow> tree_at (Suc k) h ep = Some e \<and> distinct (addrs (Suc k) h ep))"

definition rel ::
  "nat \<Rightarrow> addr \<Rightarrow> (error + 'a frame) \<Rightarrow> (error + addr) \<Rightarrow> 'a heap \<Rightarrow> bool" where
  "rel k a R res h' \<longleftrightarrow>
     (case res of
        Inl err \<Rightarrow> R = Inl err
      | Inr ep' \<Rightarrow> (\<exists>s'. R = Inr s' \<and> sim k a h' ep' s'))"

text \<open>
  A store with the expression ((x + 0) + y) * 2 at index 6 and the expression
  sin((x + 0) + y) at index 7; the two share the node at index 4. The second store is what
  \<open>optimize\<close> at index 6 leaves.
\<close>

definition example_heap :: "real heap" where
  "example_heap =
     [VarNode ''x'', ConstantNode 0, BinaryNode 0 1 PLUS, VarNode ''y'',
      BinaryNode 2 3 PLUS, ConstantNode 2, BinaryNode 4 5 MULT, MonoNode 4 SIN]"

definition example_heap' :: "real heap" where
  "example_heap' =
     [VarNode ''x'', ConstantNode 0, BinaryNode 0 1 PLUS, VarNode ''y'',
      BinaryNode 0 3 PLUS, ConstantNode 2, BinaryNode 4 5 MULT, MonoNode 4 SIN]"

text \<open>
  What the proof that a second call changes nothing is written with. A constant operand
  equal to the number \<open>k\<close>; a binary node on which neither block of \<open>optimize\<close> fires, given
  its operation and the two casts; and a pointer that is \<^emph>\<open>normal\<close>: every binary node
  reachable from it is such a node. A result is \<^emph>\<open>fresh\<close> when it is a constant allocated by
  the call.
\<close>

definition is_const_eq :: "'a numeric \<Rightarrow> int \<Rightarrow> 'a option \<Rightarrow> bool" where
  "is_const_eq N k c = (case c of None \<Rightarrow> False | Some v \<Rightarrow> T_eq N v (T_of N k))"

definition quiet :: "'a numeric \<Rightarrow> Operation \<Rightarrow> 'a option \<Rightarrow> 'a option \<Rightarrow> bool" where
  "quiet N op left right =
     (case op of
        POW \<Rightarrow> True
      | PLUS \<Rightarrow> \<not> is_const_eq N 0 left \<and> \<not> is_const_eq N 0 right
      | MINUS \<Rightarrow> \<not> is_const_eq N 0 left \<and> \<not> is_const_eq N 0 right
      | MULT \<Rightarrow> \<not> is_const_eq N 0 left \<and> \<not> is_const_eq N 0 right
                \<and> \<not> is_const_eq N 1 left \<and> \<not> is_const_eq N 1 right
      | DIV \<Rightarrow> \<not> is_const_eq N 0 left \<and> \<not> is_const_eq N 0 right
               \<and> \<not> is_const_eq N 1 right \<and> (is_const_eq N 1 left \<longrightarrow> right = None))"

inductive normal :: "'a numeric \<Rightarrow> 'a heap \<Rightarrow> addr \<Rightarrow> bool" for N h where
  normal_Constant: "a < length h \<Longrightarrow> h ! a = ConstantNode v \<Longrightarrow> normal N h a"
| normal_Var: "a < length h \<Longrightarrow> h ! a = VarNode x \<Longrightarrow> normal N h a"
| normal_Mono: "a < length h \<Longrightarrow> h ! a = MonoNode e f \<Longrightarrow> normal N h e \<Longrightarrow> normal N h a"
| normal_Binary:
    "a < length h \<Longrightarrow> h ! a = BinaryNode l r op \<Longrightarrow> normal N h l \<Longrightarrow> normal N h r
       \<Longrightarrow> quiet N op (constant_at h l) (constant_at h r) \<Longrightarrow> normal N h a"

definition fresh_result :: "'a heap \<Rightarrow> addr \<Rightarrow> 'a heap \<Rightarrow> bool" where
  "fresh_result h p h' \<longleftrightarrow> length h \<le> p \<and> p < length h' \<and> (\<exists>v. h' ! p = ConstantNode v)"

text \<open>
  A store with the expression (0 - x) + (0 - x) at index 3, both operands being the one
  node at index 2. The second store is what \<open>optimize\<close> at index 3 leaves: the first
  visit of node 2 overwrites it with (-1) * x, the second visit finds it in that form, and
  the call returns the pointer 2.
\<close>

definition shared_heap :: "real heap" where
  "shared_heap =
     [ConstantNode 0, VarNode ''x'', BinaryNode 0 1 MINUS, BinaryNode 2 2 PLUS]"

definition shared_heap' :: "real heap" where
  "shared_heap' =
     [ConstantNode 0, VarNode ''x'', BinaryNode 4 1 MULT, BinaryNode 5 2 PLUS,
      ConstantNode (- 1), ConstantNode 0]"

section \<open>Properties\<close>

subsection \<open>Evaluation\<close>

text \<open>
  Claim C3. If the right operand of a DIV node evaluates to a value equal to zero, the
  evaluation of the node throws Division by zero. The test comes before the division: the
  left operand has not been evaluated, so the parameter map is the one the right operand
  left behind.
\<close>

theorem eval_DIV_by_zero:
  assumes "eval N r ps = (Inr d, ps1)" and "T_eq N d (T_of N 0)"
  shows "eval N (BinaryExpression l r DIV) ps = (Inl (runtime_error ''Division by zero''), ps1)"
  using assms by simp

theorem eval_DIV_by_zero_witness:
  "eval double_numeric (ConstantExpression 0) [''x'' \<mapsto> 1] = (Inr 0, [''x'' \<mapsto> 1])
   \<and> T_eq double_numeric 0 (T_of double_numeric 0)
   \<and> eval double_numeric (BinaryExpression (VarExpression ''x'') (ConstantExpression 0) DIV)
        [''x'' \<mapsto> 1]
       = (Inl (runtime_error ''Division by zero''), [''x'' \<mapsto> 1])"
proof -
  have h1: "eval double_numeric (ConstantExpression 0) [''x'' \<mapsto> 1] = (Inr 0, [''x'' \<mapsto> 1])"
    by simp
  have h2: "T_eq double_numeric 0 (T_of double_numeric 0)"
    by (simp add: double_numeric_def)
  note eval_DIV_by_zero [OF h1 h2, of "VarExpression ''x''"]
  with h1 h2 show ?thesis by blast
qed

text \<open>
  Claim C4. Evaluating a variable whose name is not a key of the parameter map returns the
  zero of T; it does not throw.
\<close>

theorem eval_unbound_variable:
  assumes "ps n = None"
  shows "fst (eval N (VarExpression n) ps) = Inr (T_of N 0)"
  using assms by simp

theorem eval_unbound_variable_witness:
  "(Map.empty :: real parameters) ''x'' = None
   \<and> fst (eval double_numeric (VarExpression ''x'') Map.empty) = Inr 0"
proof -
  have h: "(Map.empty :: real parameters) ''x'' = None" by simp
  from eval_unbound_variable [OF h, of double_numeric] h show ?thesis
    by (simp add: double_numeric_def)
qed

lemma eval_keeps_entries:
  "eval N e ps = (res, ps') \<Longrightarrow> ps n = Some v \<Longrightarrow> ps' n = Some v"
proof (induction e arbitrary: ps res ps')
  case (ConstantExpression x)
  then show ?case by simp
next
  case (VarExpression x)
  then show ?case by (auto split: option.splits)
next
  case (MonoExpression e f)
  then show ?case by (fastforce split: prod.splits sum.splits)
next
  case (BinaryExpression l r op)
  show ?case
  proof (cases "op = DIV")
    case True
    with BinaryExpression.prems show ?thesis
      by (auto split: prod.splits sum.splits if_splits dest: BinaryExpression.IH)
  next
    case False
    with BinaryExpression.prems show ?thesis
      by (auto split: prod.splits sum.splits if_splits dest: BinaryExpression.IH)
  qed
qed

lemma eval_success_parameters:
  "eval N e ps = (Inr v, ps') \<Longrightarrow>
     ps' = (\<lambda>n. if n \<in> variables e \<and> ps n = None then Some (T_of N 0) else ps n)"
proof (induction e arbitrary: ps v ps')
  case (ConstantExpression x)
  then show ?case by auto
next
  case (VarExpression x)
  then show ?case by (cases "ps x") (auto intro!: ext)
next
  case (MonoExpression e f)
  then show ?case by (fastforce split: prod.splits sum.splits)
next
  case (BinaryExpression l r op)
  show ?case
  proof (cases "op = DIV")
    case True
    with BinaryExpression.prems obtain d ps1 x ps2 y where
      r1: "eval N r ps = (Inr d, ps1)" and l1: "eval N l ps1 = (Inr x, ps2)"
      and r2: "eval N r ps2 = (Inr y, ps')"
      by (auto split: prod.splits sum.splits if_splits)
    from BinaryExpression.IH(2) [OF r1] BinaryExpression.IH(1) [OF l1]
      BinaryExpression.IH(2) [OF r2]
    show ?thesis by (auto simp: fun_eq_iff)
  next
    case False
    with BinaryExpression.prems obtain x ps1 y where
      l1: "eval N l ps = (Inr x, ps1)" and r1: "eval N r ps1 = (Inr y, ps')"
      by (auto split: prod.splits sum.splits if_splits)
    from BinaryExpression.IH(1) [OF l1] BinaryExpression.IH(2) [OF r1]
    show ?thesis by (auto simp: fun_eq_iff)
  qed
qed

text \<open>
  Claim C10, as stated, fails: an evaluation that throws may stop before it reaches the
  variable. In \<open>n / 0\<close> the divisor is evaluated first and the exception leaves the map
  without an entry for \<open>n\<close>.
\<close>

theorem eval_DIV_skips_variable:
  "''n'' \<in> variables (BinaryExpression (VarExpression ''n'') (ConstantExpression (0::real)) DIV)
   \<and> (Map.empty :: real parameters) ''n'' = None
   \<and> snd (eval double_numeric
            (BinaryExpression (VarExpression ''n'') (ConstantExpression 0) DIV) Map.empty) ''n''
       = None"
  by (simp add: double_numeric_def)

text \<open>
  Claim C10, amended. Evaluation never changes an entry that is present, whether it
  returns or throws; and when it returns a value, the map it leaves is the given one
  extended by an entry with the zero of T for every variable of the expression that was
  missing, and by nothing else.
\<close>

theorem eval_parameters_effect:
  assumes "eval N e ps = (res, ps')"
  shows "(\<forall>n v. ps n = Some v \<longrightarrow> ps' n = Some v)
         \<and> (\<forall>v. res = Inr v \<longrightarrow>
               ps' = (\<lambda>n. if n \<in> variables e \<and> ps n = None then Some (T_of N 0) else ps n))"
  using assms eval_keeps_entries [of N e ps res ps'] eval_success_parameters [of N e ps _ ps']
  by blast

theorem eval_parameters_effect_witness:
  "eval double_numeric (BinaryExpression (VarExpression ''x'') (VarExpression ''y'') PLUS)
     [''x'' \<mapsto> 1] = (Inr 1, [''x'' \<mapsto> 1, ''y'' \<mapsto> 0])
   \<and> [''x'' \<mapsto> 1::real, ''y'' \<mapsto> 0] ''x'' = Some 1
   \<and> [''x'' \<mapsto> 1::real, ''y'' \<mapsto> 0] ''y'' = Some 0"
proof -
  have h: "eval double_numeric (BinaryExpression (VarExpression ''x'') (VarExpression ''y'') PLUS)
             [''x'' \<mapsto> 1] = (Inr 1, [''x'' \<mapsto> 1, ''y'' \<mapsto> 0])"
    by (simp add: double_numeric_def apply_Operation_def)
  note eval_parameters_effect [OF h]
  with h show ?thesis by (simp add: double_numeric_def)
qed

subsection \<open>Differentiation\<close>

lemma diff_error: "diff N e str = Inl err \<Longrightarrow> err = runtime_error ''Unknown operation''"
  by (induction e arbitrary: err)
     (auto split: sum.splits Function.splits Operation.splits if_splits)

lemma diff_total: "\<not> is_complex N \<Longrightarrow> \<exists>d. diff N e str = Inr d"
  by (induction e) (auto split: sum.splits Function.splits Operation.splits)

text \<open>
  Claim C5. When T is complex, differentiating a POW node never returns an expression: it
  throws the runtime error with the message Unknown operation, which is the error the
  specification calls UnsupportedOperation. This holds whatever the operands are, since
  the only exception \<open>diff\<close> can throw on any operand is that same one.
\<close>

theorem diff_POW_complex:
  assumes "is_complex N"
  shows "diff N (BinaryExpression l r POW) str = Inl (runtime_error ''Unknown operation'')"
  using assms by (auto split: sum.splits dest: diff_error)

theorem diff_POW_complex_witness:
  "is_complex complex_numeric
   \<and> diff complex_numeric
        (BinaryExpression (VarExpression ''x'') (ConstantExpression 2) POW) ''x''
       = Inl (runtime_error ''Unknown operation'')"
proof -
  have h: "is_complex complex_numeric" by (simp add: complex_numeric_def)
  from diff_POW_complex [OF h] h show ?thesis by blast
qed

text \<open>
  Claim C6. When T is not complex, the derivative of left to the power of a constant c
  exists whenever called (the derivative of left always does) and is: for c greater than
  one, the tree c * ((left ^ (c - 1)) * left'); for c equal to one, the constant one;
  otherwise the tree (c * left') / (left ^ (|c| + 1)).
\<close>

theorem diff_POW_constant_exponent:
  assumes "\<not> is_complex N"
  shows "\<exists>left_diff. diff N left str = Inr left_diff \<and>
           diff N (BinaryExpression left (ConstantExpression c) POW) str =
             Inr (if T_gt N c (T_of N 1) then
                    BinaryExpression (ConstantExpression c)
                      (BinaryExpression
                         (BinaryExpression left (ConstantExpression (T_sub N c (T_of N 1))) POW)
                         left_diff MULT)
                      MULT
                  else if T_eq N c (T_of N 1) then ConstantExpression (T_of N 1)
                  else
                    BinaryExpression
                      (BinaryExpression (ConstantExpression c) left_diff MULT)
                      (BinaryExpression left
                         (ConstantExpression (T_add N (T_abs N c) (T_of N 1))) POW)
                      DIV)"
proof -
  from diff_total [OF assms] obtain left_diff where "diff N left str = Inr left_diff"
    by blast
  with assms show ?thesis by (simp add: diff_pow_def)
qed

theorem diff_POW_constant_exponent_witness:
  "\<not> is_complex double_numeric
   \<and> diff double_numeric (BinaryExpression (VarExpression ''x'') (ConstantExpression 3) POW) ''x''
       = Inr (BinaryExpression (ConstantExpression 3)
               (BinaryExpression
                  (BinaryExpression (VarExpression ''x'') (ConstantExpression 2) POW)
                  (ConstantExpression 1) MULT)
               MULT)
   \<and> diff double_numeric (BinaryExpression (VarExpression ''x'') (ConstantExpression 1) POW) ''x''
       = Inr (ConstantExpression 1)
   \<and> diff double_numeric
        (BinaryExpression (VarExpression ''x'') (ConstantExpression (- 2)) POW) ''x''
       = Inr (BinaryExpression
               (BinaryExpression (ConstantExpression (- 2)) (ConstantExpression 1) MULT)
               (BinaryExpression (VarExpression ''x'') (ConstantExpression 3) POW)
               DIV)"
proof -
  have h: "\<not> is_complex double_numeric" by (simp add: double_numeric_def)
  from diff_POW_constant_exponent [OF h, of "VarExpression ''x''" "''x''" 3]
    diff_POW_constant_exponent [OF h, of "VarExpression ''x''" "''x''" 1]
    diff_POW_constant_exponent [OF h, of "VarExpression ''x''" "''x''" "- 2"]
  show ?thesis by (simp add: double_numeric_def)
qed

subsection \<open>Rendering\<close>

text \<open>
  Claim C7, as stated, fails for POW: the source writes the caret with no space on either
  side, so x to the power 2 prints as (x^2) and not as (x ^ 2).
\<close>

theorem to_string_POW_no_spaces:
  "to_string double_numeric double_printer
     (BinaryExpression (VarExpression ''x'') (ConstantExpression 2) POW) = ''(x^2)''
   \<and> to_string double_numeric double_printer
       (BinaryExpression (VarExpression ''x'') (ConstantExpression 2) POW)
     \<noteq> ''('' @ to_string double_numeric double_printer (VarExpression ''x'') @ '' ''
         @ spec_opSymbol POW @ '' ''
         @ to_string double_numeric double_printer (ConstantExpression 2) @ '')''"
  by (simp add: constant_to_string_def to_string_optimized_def double_numeric_def
      double_printer_def long_to_string_def spec_opSymbol_def)

text \<open>
  Claim C7, amended. A binary node prints as an opening parenthesis, the left operand, the
  operator, the right operand and a closing parenthesis; the operator is its symbol with
  one space on each side for PLUS, MINUS, MULT and DIV, and the bare caret for POW. In
  particular x + 2 over double prints as (x + 2).
\<close>

theorem to_string_BinaryExpression:
  "to_string N P (BinaryExpression left right op) =
     ''('' @ to_string N P left
       @ (if op = POW then spec_opSymbol op else '' '' @ spec_opSymbol op @ '' '')
       @ to_string N P right @ '')''
   \<and> to_string double_numeric double_printer
       (BinaryExpression (VarExpression ''x'') (ConstantExpression 2) PLUS) = ''(x + 2)''"
proof
  show "to_string N P (BinaryExpression left right op) =
     ''('' @ to_string N P left
       @ (if op = POW then spec_opSymbol op else '' '' @ spec_opSymbol op @ '' '')
       @ to_string N P right @ '')''"
    by (cases op) (simp_all add: spec_opSymbol_def)
  show "to_string double_numeric double_printer
       (BinaryExpression (VarExpression ''x'') (ConstantExpression 2) PLUS) = ''(x + 2)''"
    by (simp add: constant_to_string_def to_string_optimized_def double_numeric_def
        double_printer_def long_to_string_def)
qed

subsection \<open>Simplification\<close>

text \<open>
  Claim C2, as stated, fails: two constant operands of PLUS or MINUS are folded only when
  one of them is zero. The sum of the constants 2 and 3 is returned as it is.
\<close>

theorem optimize_two_plus_three_not_folded:
  "optimize double_numeric
     (BinaryExpression (ConstantExpression 2) (ConstantExpression 3) PLUS)
     = Inr (BinaryExpression (ConstantExpression 2) (ConstantExpression 3) PLUS)
   \<and> optimize double_numeric
       (BinaryExpression (ConstantExpression 2) (ConstantExpression 3) PLUS)
     \<noteq> Inr (ConstantExpression 5)"
  by (simp add: rewrite_binary_def plus_minus_block_def mult_div_block_def zero_block_def resolve_def
      double_numeric_def)

text \<open>
  Claim C2, amended. For constants a and b under PLUS or MINUS: when a or b equals zero,
  the node is folded to the one constant whose value \<open>eval\<close> computes for the node (with
  an empty map), which is a + b or a - b; when neither equals zero, the node is returned
  unfolded.
\<close>

theorem optimize_constants_PLUS_MINUS:
  assumes "op = PLUS \<or> op = MINUS"
  shows "fst (eval N (BinaryExpression (ConstantExpression a) (ConstantExpression b) op)
                Map.empty) = Inr (apply_Operation N op a b)
         \<and> optimize N (BinaryExpression (ConstantExpression a) (ConstantExpression b) op) =
             (if T_eq N a (T_of N 0) \<or> T_eq N b (T_of N 0)
              then Inr (ConstantExpression (apply_Operation N op a b))
              else Inr (BinaryExpression (ConstantExpression a) (ConstantExpression b) op))"
  using assms
  by (auto simp: rewrite_binary_def plus_minus_block_def mult_div_block_def zero_block_def resolve_def
      fold_expr_def)

theorem optimize_constants_PLUS_MINUS_witness:
  "((PLUS::Operation) = PLUS \<or> PLUS = MINUS)
   \<and> optimize double_numeric
       (BinaryExpression (ConstantExpression 0) (ConstantExpression 3) PLUS)
     = Inr (ConstantExpression 3)
   \<and> optimize double_numeric
       (BinaryExpression (ConstantExpression 2) (ConstantExpression 0) MINUS)
     = Inr (ConstantExpression 2)"
proof -
  have h: "(PLUS::Operation) = PLUS \<or> PLUS = MINUS" by simp
  have h': "(MINUS::Operation) = PLUS \<or> MINUS = MINUS" by simp
  from optimize_constants_PLUS_MINUS [OF h, of double_numeric 0 3]
    optimize_constants_PLUS_MINUS [OF h', of double_numeric 2 0] h
  show ?thesis by (simp add: double_numeric_def apply_Operation_def)
qed

lemma rewrite_binary_shape:
  "rewrite_binary N l r op = Inr e' \<Longrightarrow>
     e' = BinaryExpression l r op \<or> e' = l \<or> e' = r \<or> (\<exists>v. e' = ConstantExpression v)"
  by (cases l; cases r;
      auto simp: rewrite_binary_def plus_minus_block_def mult_div_block_def zero_block_def resolve_def
        fold_expr_def Let_def
      split: if_splits sum.splits option.splits)

lemma optimize_fixed: "optimize N e = Inr e' \<Longrightarrow> optimize N e' = Inr e'"
proof (induction e arbitrary: e')
  case (ConstantExpression x)
  then show ?case by auto
next
  case (VarExpression x)
  then show ?case by auto
next
  case (MonoExpression e f)
  then show ?case by (auto split: sum.splits)
next
  case (BinaryExpression l r op)
  from BinaryExpression.prems obtain l' r' where
    l: "optimize N l = Inr l'" and r: "optimize N r = Inr r'"
    and rw: "rewrite_binary N l' r' op = Inr e'"
    by (auto split: sum.splits)
  from BinaryExpression.IH(1) [OF l] BinaryExpression.IH(2) [OF r]
  have fl: "optimize N l' = Inr l'" and fr: "optimize N r' = Inr r'" by auto
  from rewrite_binary_shape [OF rw] show ?case
    using fl fr rw by auto
qed

text \<open>
  On expressions as values, \<open>optimize\<close> is idempotent: running it on its own result gives
  that result again, and when the first run throws, so does the composition, with the same
  exception. This covers an argument whose nodes are not shared; the subsection on
  simplifying twice treats the function on the store, where they may be.
\<close>

lemma optimize_idempotent:
  "(case optimize N e of Inl err \<Rightarrow> Inl err | Inr e' \<Rightarrow> optimize N e') = optimize N e"
  by (cases "optimize N e") (simp_all add: optimize_fixed)

subsection \<open>Simplification and evaluation\<close>



















subsection \<open>Simplification in place\<close>

lemma reachable_refl: "a \<in> reachable h a"
  by (simp add: reachable_def)

lemma reachable_trans: "b \<in> reachable h a \<Longrightarrow> c \<in> reachable h b \<Longrightarrow> c \<in> reachable h a"
  by (auto simp: reachable_def)

lemma reachable_child:
  "a < length h \<Longrightarrow> c \<in> children (h ! a) \<Longrightarrow> c \<in> reachable h a"
  by (auto simp: reachable_def edges_def)

lemma reachable_step:
  "b \<in> reachable h a \<Longrightarrow> b < length h \<Longrightarrow> c \<in> children (h ! b) \<Longrightarrow> c \<in> reachable h a"
  by (meson reachable_child reachable_trans)

lemma same_kind_refl: "same_kind n n"
  by (cases n) auto

lemma same_kind_trans: "same_kind n n1 \<Longrightarrow> same_kind n1 n2 \<Longrightarrow> same_kind n n2"
  by (cases n; cases n1; cases n2) auto

lemma grows_length: "grows h h' \<Longrightarrow> length h \<le> length h'"
  and grows_kind: "grows h h' \<Longrightarrow> b < length h \<Longrightarrow> same_kind (h ! b) (h' ! b)"
  and grows_children: "grows h h' \<Longrightarrow> b < length h \<Longrightarrow> c \<in> children (h' ! b)
                     \<Longrightarrow> c \<in> reachable h b \<or> length h \<le> c"
  and grows_new: "grows h h' \<Longrightarrow> length h \<le> b \<Longrightarrow> b < length h'
                     \<Longrightarrow> \<exists>v. h' ! b = ConstantNode v"
  unfolding grows_def by blast+

lemma growsI:
  assumes "length h \<le> length h'"
    and "\<And>b. b < length h \<Longrightarrow> same_kind (h ! b) (h' ! b)"
    and "\<And>b c. b < length h \<Longrightarrow> c \<in> children (h' ! b) \<Longrightarrow> c \<in> reachable h b \<or> length h \<le> c"
    and "\<And>b. length h \<le> b \<Longrightarrow> b < length h' \<Longrightarrow> \<exists>v. h' ! b = ConstantNode v"
  shows "grows h h'"
  unfolding grows_def using assms by blast

lemma grows_refl: "grows h h"
  by (rule growsI) (auto simp: reachable_child same_kind_refl)

lemma reach_mono:
  assumes g: "grows h h'" and y: "y \<in> reachable h' x"
  shows "y \<in> reachable h x \<or> length h \<le> y"
proof -
  from y have "(x, y) \<in> (edges h')\<^sup>*" by (simp add: reachable_def)
  then show ?thesis
  proof (induction rule: rtrancl_induct)
    case base
    then show ?case by (simp add: reachable_refl)
  next
    case (step y z)
    from step.hyps(2) have yl: "y < length h'" and zc: "z \<in> children (h' ! y)"
      by (auto simp: edges_def)
    show ?case
    proof (cases "y < length h")
      case True
      with step.IH have yr: "y \<in> reachable h x" by auto
      from grows_children [OF g True zc] have "z \<in> reachable h y \<or> length h \<le> z" .
      with yr show ?thesis by (auto intro: reachable_trans)
    next
      case False
      with grows_new [OF g _ yl] obtain v where "h' ! y = ConstantNode v" by auto
      with zc show ?thesis by simp
    qed
  qed
qed

lemma grows_trans:
  assumes a: "grows h h1" and b: "grows h1 h2"
  shows "grows h h2"
proof (rule growsI)
  note l1 = grows_length [OF a] and l2 = grows_length [OF b]
  show "length h \<le> length h2" using l1 l2 by simp
  show "same_kind (h ! x) (h2 ! x)" if "x < length h" for x
    using that grows_kind [OF a, of x] grows_kind [OF b, of x] l1
    by (auto intro: same_kind_trans)
  show "c \<in> reachable h x \<or> length h \<le> c" if "x < length h" "c \<in> children (h2 ! x)" for x c
  proof -
    from that l1 have "x < length h1" by simp
    from grows_children [OF b this that(2)] have "c \<in> reachable h1 x \<or> length h1 \<le> c" .
    then show ?thesis using reach_mono [OF a, of c x] l1 by auto
  qed
  show "\<exists>v. h2 ! x = ConstantNode v" if "length h \<le> x" "x < length h2" for x
  proof (cases "x < length h1")
    case True
    with grows_new [OF a that(1)] obtain v where v: "h1 ! x = ConstantNode v" by blast
    with grows_kind [OF b True] show ?thesis by simp
  next
    case False
    with grows_new [OF b _ that(2)] show ?thesis by simp
  qed
qed

lemma grows_append: "grows h (h @ [ConstantNode v])"
  by (rule growsI) (auto simp: nth_append same_kind_refl reachable_child less_Suc_eq)

lemma grows_update:
  assumes g: "grows h h1" and a: "a < length h" and k: "same_kind (h1 ! a) nd"
    and c: "\<And>c. c \<in> children nd \<Longrightarrow> c \<in> reachable h a \<or> length h \<le> c"
  shows "grows h (h1[a := nd])"
proof (rule growsI)
  note l1 = grows_length [OF g]
  show "length h \<le> length (h1[a := nd])" using l1 by simp
  show "same_kind (h ! x) (h1[a := nd] ! x)" if "x < length h" for x
    using that grows_kind [OF g that] k l1 a
    by (cases "x = a") (auto intro: same_kind_trans)
  show "c' \<in> reachable h x \<or> length h \<le> c'"
    if "x < length h" "c' \<in> children (h1[a := nd] ! x)" for x c'
    using that grows_children [OF g, of x c'] c l1 a
    by (cases "x = a") auto
  show "\<exists>v. h1[a := nd] ! x = ConstantNode v"
    if "length h \<le> x" "x < length (h1[a := nd])" for x
    using that grows_new [OF g, of x] a by auto
qed

lemma frame_refl: "frame F h h"
  by (simp add: frame_def)

lemma frame_mono: "frame F h h' \<Longrightarrow> F \<subseteq> G \<Longrightarrow> frame G h h'"
  by (auto simp: frame_def)

lemma frame_trans:
  assumes 1: "frame F h h1" and 2: "frame G h1 h2" and l: "length h \<le> length h1"
    and s: "\<And>b. b \<in> G \<Longrightarrow> b < length h \<Longrightarrow> b \<in> F"
  shows "frame F h h2"
  unfolding frame_def
proof (intro allI impI)
  fix b assume b: "b < length h" "b \<notin> F"
  with s have "b \<notin> G" by blast
  with 2 b l have "h2 ! b = h1 ! b" by (simp add: frame_def)
  with 1 b show "h2 ! b = h ! b" by (simp add: frame_def)
qed

lemma frame_update:
  assumes a: "a \<in> F" and f: "frame F h h1"
  shows "frame F h (h1[a := nd])"
  unfolding frame_def
proof (intro allI impI)
  fix b assume b: "b < length h" "b \<notin> F"
  with a have "b \<noteq> a" by blast
  with f b show "h1[a := nd] ! b = h ! b" by (simp add: frame_def)
qed

lemma post_keep: "p \<in> S \<Longrightarrow> post F S h (Inr p) h"
  by (simp add: post_def grows_refl frame_refl)

lemma post_err: "post F S h (Inl err) h"
  by (simp add: post_def grows_refl frame_refl)

lemma post_alloc: "post F S h (Inr (length h)) (h @ [ConstantNode v])"
  by (simp add: post_def grows_append frame_def nth_append)

lemma post_weaken: "post F S h res h' \<Longrightarrow> F \<subseteq> G \<Longrightarrow> S \<subseteq> T \<Longrightarrow> post G T h res h'"
  by (auto simp: post_def intro: frame_mono)

lemma post_error: "post F S h r h' \<Longrightarrow> post F S h (Inl err) h'"
  by (simp add: post_def)

lemma post_trans:
  assumes 1: "post F S h (Inr p) h1" and 2: "post G T h1 res h2"
    and g: "\<And>b. b \<in> G \<Longrightarrow> b < length h \<Longrightarrow> b \<in> F"
    and t: "\<And>q. q \<in> T \<Longrightarrow> q \<in> S \<or> length h \<le> q"
  shows "post F S h res h2"
proof -
  from 1 2 have g1: "grows h h1" and g2: "grows h1 h2" by (auto simp: post_def)
  then have "grows h h2" by (rule grows_trans)
  moreover from 1 2 g grows_length [OF g1] have "frame F h h2"
    by (auto simp: post_def intro: frame_trans)
  moreover have "q \<in> S \<or> length h \<le> q" if "res = Inr q" for q
  proof -
    from 2 that have "q \<in> T \<or> length h1 \<le> q" by (simp add: post_def)
    with t grows_length [OF g1] show ?thesis by auto
  qed
  ultimately show ?thesis by (simp add: post_def)
qed

lemma post_fold: "fold_at N k ep h = Some (res, h') \<Longrightarrow> post F S h res h'"
  by (auto simp: fold_at_def post_err post_alloc split: option.splits sum.splits)

lemma slip_heap:
  assumes "a < length h" and "h ! a = BinaryNode bl br op"
  shows "set_left a (length h) (set_op a MULT h @ [ConstantNode c])
         = (h @ [ConstantNode c])[a := BinaryNode (length h) br MULT]"
  using assms by (simp add: set_left_def set_op_def nth_append list_update_append1)

lemma post_slip:
  assumes a: "a < length h" and n: "h ! a = BinaryNode bl br op" and f: "a \<in> F"
    and s: "ep \<in> S"
  shows "post F S h (Inr ep) (set_left a (length h) (set_op a MULT h @ [ConstantNode c]))"
proof -
  have "grows h ((h @ [ConstantNode c])[a := BinaryNode (length h) br MULT])"
  proof (rule grows_update [OF grows_append a])
    show "same_kind ((h @ [ConstantNode c]) ! a) (BinaryNode (length h) br MULT)"
      using a n by (simp add: nth_append)
    show "c' \<in> reachable h a \<or> length h \<le> c'"
      if "c' \<in> children (BinaryNode (length h) br MULT)" for c'
      using that a n by (auto intro: reachable_child)
  qed
  moreover have "frame F h ((h @ [ConstantNode c])[a := BinaryNode (length h) br MULT])"
    by (rule frame_update [OF f]) (simp add: frame_def nth_append)
  ultimately show ?thesis
    using s by (simp add: post_def slip_heap [OF a n])
qed

lemma post_plus_minus:
  assumes r: "plus_minus_at N k a left right ep h = Some (res, h')"
    and a: "a < length h" "a \<in> F" and e: "ep \<in> S"
    and c: "children (h ! a) \<subseteq> S"
  shows "post F S h res h'"
proof -
  from r obtain bl br op where n: "h ! a = BinaryNode bl br op"
    by (auto simp: plus_minus_at_def split: node.splits)
  with c have ch: "bl \<in> S" "br \<in> S" by auto
  show ?thesis
  proof (cases "op = PLUS \<or> op = MINUS")
    case False
    with r n e show ?thesis by (auto simp: plus_minus_at_def post_keep)
  next
    case True
    show ?thesis
    proof (cases left)
      case None
      with r n e ch True show ?thesis
        by (cases right) (auto simp: plus_minus_at_def post_keep split: if_splits)
    next
      case (Some x)
      show ?thesis
      proof (cases right)
        case None
        with r n e ch True Some a show ?thesis
          by (auto simp: plus_minus_at_def post_keep post_slip split: if_splits)
      next
        case (Some y)
        with r n e ch True \<open>left = Some x\<close> show ?thesis
          by (auto simp: plus_minus_at_def post_keep post_fold split: if_splits)
      qed
    qed
  qed
qed

lemma post_zero_block:
  "zero_block_at N op x y ep h = Some (res, h') \<Longrightarrow> ep \<in> S \<Longrightarrow> post F S h res h'"
  by (auto simp: zero_block_at_def post_keep post_alloc post_err split: if_splits)

lemma post_mult_div:
  assumes r: "mult_div_at N k a left right ep h = Some (res, h')"
    and e: "ep \<in> S" and c: "children (h ! a) \<subseteq> S"
  shows "post F S h res h'"
proof -
  from r obtain bl br op where n: "h ! a = BinaryNode bl br op"
    by (auto simp: mult_div_at_def split: node.splits)
  with c have ch: "bl \<in> S" "br \<in> S" by auto
  show ?thesis
  proof (cases "op = MULT \<or> op = DIV")
    case False
    with r n e show ?thesis by (auto simp: mult_div_at_def post_keep)
  next
    case True
    show ?thesis
    proof (cases left)
      case None
      with r n e ch True show ?thesis
        by (cases right)
           (auto simp: mult_div_at_def post_keep post_alloc Let_def split: if_splits)
    next
      case (Some x)
      show ?thesis
      proof (cases right)
        case None
        with r n e ch True Some show ?thesis
          by (auto simp: mult_div_at_def post_keep post_alloc Let_def split: if_splits)
      next
        case (Some y)
        with r n True \<open>left = Some x\<close> obtain r1 h1 where
          z: "zero_block_at N op x y ep h = Some (r1, h1)"
          and f: "(case r1 of Inl err \<Rightarrow> Some (Inl err, h1)
                   | Inr ep1 \<Rightarrow> if T_eq N x (T_of N 1) \<or> T_eq N y (T_of N 1)
                                then fold_at N k ep1 h1 else Some (Inr ep1, h1))
                  = Some (res, h')"
          by (auto simp: mult_div_at_def split: option.splits sum.splits prod.splits)
        from post_zero_block [OF z e] have p1: "post F S h r1 h1" .
        show ?thesis
        proof (cases r1)
          case (Inl err)
          with f p1 show ?thesis by simp
        next
          case (Inr ep1)
          show ?thesis
          proof (cases "T_eq N x (T_of N 1) \<or> T_eq N y (T_of N 1)")
            case True
            with f Inr have "fold_at N k ep1 h1 = Some (res, h')" by simp
            from post_fold [OF this, of "{}" "{}"] have "post {} {} h1 res h'" .
            with p1 Inr show ?thesis by (auto intro: post_trans)
          next
            case False
            with f Inr p1 show ?thesis by simp
          qed
        qed
      qed
    qed
  qed
qed

lemma reachable_dangling: "length h \<le> x \<Longrightarrow> y \<in> reachable h x \<Longrightarrow> y = x"
  unfolding reachable_def
  by (auto simp: edges_def elim: converse_rtranclE)

lemma post_rewrite:
  assumes r: "rewrite_at N k a h = Some (res, h')" and a: "a < length h"
  shows "post {a} (reachable h a) h res h'"
proof -
  from r obtain bl br op where n: "h ! a = BinaryNode bl br op"
    by (auto simp: rewrite_at_def split: node.splits)
  let ?left = "constant_at h bl" and ?right = "constant_at h br"
  from r n obtain r1 h1 where
    b1: "plus_minus_at N k a ?left ?right a h = Some (r1, h1)"
    and b2: "(case r1 of Inl err \<Rightarrow> Some (Inl err, h1)
              | Inr ep1 \<Rightarrow> mult_div_at N k a ?left ?right ep1 h1) = Some (res, h')"
    by (auto simp: rewrite_at_def Let_def split: option.splits sum.splits prod.splits)
  have ch: "children (h ! a) \<subseteq> reachable h a"
    using a by (auto intro: reachable_child)
  from post_plus_minus [OF b1 a _ reachable_refl ch, of "{a}"]
  have p1: "post {a} (reachable h a) h r1 h1" by simp
  show ?thesis
  proof (cases r1)
    case (Inl err)
    with b2 p1 show ?thesis by simp
  next
    case (Inr ep1)
    let ?T = "reachable h a \<union> {c. length h \<le> c}"
    from p1 have g1: "grows h h1" by (simp add: post_def)
    from p1 Inr have e1: "ep1 \<in> ?T" by (auto simp: post_def)
    have c1: "children (h1 ! a) \<subseteq> ?T"
      using grows_children [OF g1 a] by auto
    from b2 Inr have "mult_div_at N k a ?left ?right ep1 h1 = Some (res, h')" by simp
    from post_mult_div [OF this e1 c1, of "{}"] have "post {} ?T h1 res h'" .
    with p1 Inr show ?thesis by (auto intro: post_trans)
  qed
qed

lemma reachable_sub:
  assumes "a < length h" and "c \<in> children (h ! a)"
  shows "reachable h c \<subseteq> reachable h a"
proof
  fix x assume "x \<in> reachable h c"
  with reachable_child [OF assms] show "x \<in> reachable h a" by (rule reachable_trans)
qed

lemma post_assign:
  assumes p: "post F S h (Inr q) h1" and a: "a < length h" "a \<in> F" "a \<in> S"
    and k: "same_kind (h1 ! a) nd"
    and c: "\<And>c. c \<in> children nd \<Longrightarrow> c \<in> reachable h a \<or> length h \<le> c"
  shows "post F S h (Inr a) (h1[a := nd])"
proof -
  from p have g: "grows h h1" and f: "frame F h h1" by (auto simp: post_def)
  from grows_update [OF g a(1) k c] have "grows h (h1[a := nd])" .
  moreover from frame_update [OF a(2) f] have "frame F h (h1[a := nd])" .
  ultimately show ?thesis using a(3) by (simp add: post_def)
qed

lemma reach_child_mono:
  assumes g: "grows h h2" and a: "a < length h" and c: "c \<in> children (h2 ! a)"
    and q: "q \<in> reachable h2 c"
  shows "q \<in> reachable h a \<or> length h \<le> q"
proof -
  from reach_mono [OF g q] have 1: "q \<in> reachable h c \<or> length h \<le> q" .
  from grows_children [OF g a c] have 2: "c \<in> reachable h a \<or> length h \<le> c" .
  show ?thesis
  proof (cases "length h \<le> c")
    case True
    with 1 reachable_dangling [OF True] show ?thesis by auto
  next
    case False
    with 1 2 show ?thesis by (auto intro: reachable_trans)
  qed
qed

lemma optimize_at_post:
  "optimize_at N k a h = Some (res, h') \<Longrightarrow> post (reachable h a) (reachable h a) h res h'"
proof (induction k arbitrary: a h res h')
  case 0
  then show ?case by simp
next
  case (Suc k)
  let ?R = "reachable h a"
  from Suc.prems have a: "a < length h" by (auto split: if_splits)
  have aR: "a \<in> ?R" by (rule reachable_refl)
  show ?case
  proof (cases "h ! a")
    case (ConstantNode v)
    with Suc.prems a show ?thesis by (auto simp: post_keep reachable_refl)
  next
    case (VarNode x)
    with Suc.prems a show ?thesis by (auto simp: post_keep reachable_refl)
  next
    case (MonoNode e f)
    with Suc.prems a obtain r1 h1 where
      c: "optimize_at N k e h = Some (r1, h1)" and
      f: "(case r1 of Inl err \<Rightarrow> (Inl err, h1) | Inr e' \<Rightarrow> (Inr a, set_expr a e' h1)) = (res, h')"
      by (auto split: option.splits sum.splits prod.splits)
    have sub: "reachable h e \<subseteq> ?R"
      using reachable_sub [OF a, of e] MonoNode by simp
    from post_weaken [OF Suc.IH [OF c] sub sub] have p1: "post ?R ?R h r1 h1" .
    show ?thesis
    proof (cases r1)
      case (Inl err)
      with f p1 show ?thesis by auto
    next
      case (Inr e')
      from p1 have g1: "grows h h1" by (simp add: post_def)
      from grows_kind [OF g1 a] MonoNode obtain e1 where n1: "h1 ! a = MonoNode e1 f"
        by (auto split: node.splits)
      with f Inr have res: "res = Inr a" "h' = h1[a := MonoNode e' f]"
        by (auto simp: set_expr_def)
      have "post ?R ?R h (Inr a) (h1[a := MonoNode e' f])"
      proof (rule post_assign [OF _ a aR aR])
        show "post ?R ?R h (Inr e') h1" using p1 Inr by simp
        show "same_kind (h1 ! a) (MonoNode e' f)" using n1 by simp
        show "c \<in> ?R \<or> length h \<le> c" if "c \<in> children (MonoNode e' f)" for c
          using that p1 Inr by (auto simp: post_def)
      qed
      with res show ?thesis by simp
    qed
  next
    case (BinaryNode l r op)
    with Suc.prems a obtain r1 h1 where
      c1: "optimize_at N k l h = Some (r1, h1)" and
      f1: "(case r1 of Inl err \<Rightarrow> Some (Inl err, h1)
            | Inr l' \<Rightarrow>
                (let h2 = set_left a l' h1
                 in case h2 ! a of
                      BinaryNode l2 r2 op2 \<Rightarrow>
                        (case optimize_at N k r2 h2 of
                           None \<Rightarrow> None
                         | Some (Inl err, h3) \<Rightarrow> Some (Inl err, h3)
                         | Some (Inr r', h3) \<Rightarrow> rewrite_at N (Suc k) a (set_right a r' h3))
                    | _ \<Rightarrow> None)) = Some (res, h')"
      by (auto split: option.splits sum.splits prod.splits)
    have sub: "reachable h l \<subseteq> ?R"
      using reachable_sub [OF a, of l] BinaryNode by simp
    from post_weaken [OF Suc.IH [OF c1] sub sub] have p1: "post ?R ?R h r1 h1" .
    show ?thesis
    proof (cases r1)
      case (Inl err)
      with f1 p1 show ?thesis by auto
    next
      case (Inr l')
      from p1 have g1: "grows h h1" by (simp add: post_def)
      note len1 = grows_length [OF g1]
      from grows_kind [OF g1 a] BinaryNode obtain l1 rr op1 where
        n1: "h1 ! a = BinaryNode l1 rr op1"
        by (auto split: node.splits)
      define h2 where "h2 = h1[a := BinaryNode l' rr op1]"
      have h2: "set_left a l' h1 = h2" using n1 by (simp add: set_left_def h2_def)
      have n2: "h2 ! a = BinaryNode l' rr op1" using a len1 by (simp add: h2_def)
      have p2: "post ?R ?R h (Inr a) h2"
        unfolding h2_def
      proof (rule post_assign [OF _ a aR aR])
        show "post ?R ?R h (Inr l') h1" using p1 Inr by simp
        show "same_kind (h1 ! a) (BinaryNode l' rr op1)" using n1 by simp
        show "c \<in> ?R \<or> length h \<le> c" if "c \<in> children (BinaryNode l' rr op1)" for c
          using that p1 Inr grows_children [OF g1 a, of c] n1 by (auto simp: post_def)
      qed
      then have g2: "grows h h2" by (simp add: post_def)
      from f1 Inr h2 n2 obtain r3 h3 where
        c2: "optimize_at N k rr h2 = Some (r3, h3)" and
        f2: "(case r3 of Inl err \<Rightarrow> Some (Inl err, h3)
              | Inr r' \<Rightarrow> rewrite_at N (Suc k) a (set_right a r' h3)) = Some (res, h')"
        by (auto split: option.splits sum.splits prod.splits)
      have rrc: "rr \<in> children (h2 ! a)" using n2 by simp
      have p3: "post ?R ?R h r3 h3"
      proof (rule post_trans [OF p2 Suc.IH [OF c2]])
        show "b \<in> ?R" if "b \<in> reachable h2 rr" "b < length h" for b
          using reach_child_mono [OF g2 a rrc that(1)] that(2) by auto
        show "q \<in> ?R \<or> length h \<le> q" if "q \<in> reachable h2 rr" for q
          using reach_child_mono [OF g2 a rrc that] .
      qed
      show ?thesis
      proof (cases r3)
        case (Inl err)
        with f2 p3 show ?thesis by auto
      next
        case (Inr r')
        from p3 have g3: "grows h h3" by (simp add: post_def)
        note len3 = grows_length [OF g3]
        from grows_kind [OF g3 a] BinaryNode obtain l3 r3' op3 where
          n3: "h3 ! a = BinaryNode l3 r3' op3"
          by (auto split: node.splits)
        define h4 where "h4 = h3[a := BinaryNode l3 r' op3]"
        have h4: "set_right a r' h3 = h4" using n3 by (simp add: set_right_def h4_def)
        have p4: "post ?R ?R h (Inr a) h4"
          unfolding h4_def
        proof (rule post_assign [OF _ a aR aR])
          show "post ?R ?R h (Inr r') h3" using p3 Inr by simp
          show "same_kind (h3 ! a) (BinaryNode l3 r' op3)" using n3 by simp
          show "c \<in> ?R \<or> length h \<le> c" if "c \<in> children (BinaryNode l3 r' op3)" for c
            using that p3 Inr grows_children [OF g3 a, of c] n3 by (auto simp: post_def)
        qed
        then have g4: "grows h h4" by (simp add: post_def)
        have a4: "a < length h4" using a grows_length [OF g4] by simp
        from f2 Inr h4 have rw: "rewrite_at N (Suc k) a h4 = Some (res, h')" by simp
        show ?thesis
        proof (rule post_trans [OF p4 post_rewrite [OF rw a4]])
          show "b \<in> ?R" if "b \<in> {a}" for b using that aR by simp
          show "q \<in> ?R \<or> length h \<le> q" if "q \<in> reachable h4 a" for q
            using reach_mono [OF g4 that] .
        qed
      qed
    qed
  qed
qed

lemma tree_at_valid: "tree_at k h a = Some t \<Longrightarrow> a < length h"
  by (cases k) (auto split: if_splits)

lemma tree_at_mono: "tree_at k h a = Some t \<Longrightarrow> k \<le> k' \<Longrightarrow> tree_at k' h a = Some t"
proof (induction k arbitrary: a t k')
  case 0
  then show ?case by simp
next
  case (Suc k)
  from Suc.prems(2) obtain m where k': "k' = Suc m" and km: "k \<le> m" by (cases k') auto
  from Suc.prems(1) have a: "a < length h" by (rule tree_at_valid)
  show ?case
  proof (cases "h ! a")
    case (ConstantNode v)
    with Suc.prems a k' show ?thesis by simp
  next
    case (VarNode x)
    with Suc.prems a k' show ?thesis by simp
  next
    case (MonoNode e f)
    with Suc.prems a obtain te where "tree_at k h e = Some te" "t = MonoExpression te f"
      by (auto split: option.splits)
    with Suc.IH [OF _ km] MonoNode a k' show ?thesis by simp
  next
    case (BinaryNode l r op)
    with Suc.prems a obtain t1 t2 where "tree_at k h l = Some t1" "tree_at k h r = Some t2"
      "t = BinaryExpression t1 t2 op"
      by (auto split: option.splits)
    with Suc.IH [OF _ km] BinaryNode a k' show ?thesis by simp
  qed
qed

lemma tree_at_det: "tree_at k h a = Some t \<Longrightarrow> tree_at k' h a = Some t' \<Longrightarrow> t = t'"
  using tree_at_mono [of k h a t "max k k'"] tree_at_mono [of k' h a t' "max k k'"]
  by simp

lemma tree_at_children:
  assumes "tree_at (Suc j) h a \<noteq> None" and "c \<in> children (h ! a)"
  shows "tree_at j h c \<noteq> None"
  using assms by (cases "h ! a") (auto split: if_splits option.splits)

lemma tree_at_child_size:
  assumes "tree_at k h a = Some t" and "c \<in> children (h ! a)"
  shows "\<exists>j tc. tree_at j h c = Some tc \<and> size tc < size t"
proof -
  from assms(1) obtain j where k: "k = Suc j" by (cases k) auto
  from assms(1) have a: "a < length h" by (rule tree_at_valid)
  from assms k a show ?thesis
    by (cases "h ! a") (fastforce split: option.splits)+
qed

lemma tree_at_reachable_size:
  assumes "y \<in> reachable h x" and "tree_at k h x = Some t"
  shows "\<exists>j ty. tree_at j h y = Some ty \<and> size ty \<le> size t"
proof -
  from assms(1) have "(x, y) \<in> (edges h)\<^sup>*" by (simp add: reachable_def)
  then show ?thesis
  proof (induction rule: rtrancl_induct)
    case base
    with assms(2) show ?case by auto
  next
    case (step y z)
    then obtain j ty where y: "tree_at j h y = Some ty" "size ty \<le> size t" by blast
    from step.hyps(2) have "z \<in> children (h ! y)" by (simp add: edges_def)
    from tree_at_child_size [OF y(1) this] y(2) show ?case by fastforce
  qed
qed

lemma acyclic_child:
  assumes t: "tree_at k h a = Some t" and c: "c \<in> children (h ! a)"
  shows "a \<notin> reachable h c"
proof
  assume r: "a \<in> reachable h c"
  from tree_at_child_size [OF t c] obtain j tc where
    tc: "tree_at j h c = Some tc" "size tc < size t" by blast
  from tree_at_reachable_size [OF r tc(1)] obtain j' ta where
    ta: "tree_at j' h a = Some ta" "size ta \<le> size tc" by blast
  from tree_at_det [OF t ta(1)] ta(2) tc(2) show False by simp
qed

lemma deep_refl: "deep h h"
  by (simp add: deep_def)

lemma deep_trans: "deep h h1 \<Longrightarrow> deep h1 h2 \<Longrightarrow> deep h h2"
  by (simp add: deep_def)

lemma deepD: "deep h h' \<Longrightarrow> tree_at j h b \<noteq> None \<Longrightarrow> tree_at j h' b \<noteq> None"
  by (simp add: deep_def)

lemma tree_at_append: "tree_at j h b = Some t \<Longrightarrow> tree_at j (h @ xs) b = Some t"
proof (induction j arbitrary: b t)
  case 0
  then show ?case by simp
next
  case (Suc j)
  from Suc.prems have b: "b < length h" by (rule tree_at_valid)
  with Suc show ?case
    by (cases "h ! b") (auto simp: nth_append split: option.splits)
qed

lemma deep_append: "deep h (h @ xs)"
  unfolding deep_def using tree_at_append by fastforce

lemma deep_update:
  assumes a: "a < length h"
    and c: "\<And>j c. tree_at (Suc j) h a \<noteq> None \<Longrightarrow> c \<in> children nd \<Longrightarrow> tree_at j h c \<noteq> None"
  shows "deep h (h[a := nd])"
proof -
  have "tree_at j h b \<noteq> None \<Longrightarrow> tree_at j (h[a := nd]) b \<noteq> None" for j b
  proof (induction j arbitrary: b)
    case 0
    then show ?case by simp
  next
    case (Suc j)
    from Suc.prems obtain t where "tree_at (Suc j) h b = Some t" by auto
    then have b: "b < length h" by (rule tree_at_valid)
    show ?case
    proof (cases "b = a")
      case True
      with Suc.prems c have "\<And>c. c \<in> children nd \<Longrightarrow> tree_at j h c \<noteq> None" by blast
      with Suc.IH have "\<forall>c\<in>children nd. tree_at j (h[a := nd]) c \<noteq> None" by blast
      with True a show ?thesis by (cases nd) (auto split: option.splits)
    next
      case False
      from tree_at_children [OF Suc.prems] Suc.IH
      have "\<forall>c\<in>children (h ! b). tree_at j (h[a := nd]) c \<noteq> None" by blast
      with False b show ?thesis by (cases "h ! b") (auto split: option.splits)
    qed
  qed
  then show ?thesis by (simp add: deep_def)
qed

lemma shallow_refl: "shallow h a a"
  by (simp add: shallow_def)

lemma shallow_child: "c \<in> children (h ! a) \<Longrightarrow> shallow h a c"
  unfolding shallow_def
proof (intro allI impI)
  fix j assume c: "c \<in> children (h ! a)" and a: "tree_at j h a \<noteq> None"
  then obtain i where j: "j = Suc i" by (cases j) auto
  with tree_at_children [of i h a c] a c obtain t where "tree_at i h c = Some t" by auto
  from tree_at_mono [OF this, of j] j show "tree_at j h c \<noteq> None" by simp
qed

lemma shallow_constant:
  assumes "p < length h" and "h ! p = ConstantNode v"
  shows "shallow h a p"
  unfolding shallow_def
proof (intro allI impI)
  fix j assume "tree_at j h a \<noteq> None"
  then obtain i where "j = Suc i" by (cases j) auto
  with assms show "tree_at j h p \<noteq> None" by simp
qed

lemma shallow_fresh: "shallow (h @ [ConstantNode v]) a (length h)"
  by (rule shallow_constant [of _ _ v]) simp_all

lemma shallowD: "shallow h a p \<Longrightarrow> tree_at j h a \<noteq> None \<Longrightarrow> tree_at j h p \<noteq> None"
  by (simp add: shallow_def)

lemma tpost_keep: "shallow h a p \<Longrightarrow> tpost a h (Inr p) h"
  by (simp add: tpost_def deep_refl)

lemma tpost_err: "tpost a h (Inl err) h"
  by (simp add: tpost_def deep_refl)

lemma tpost_alloc: "tpost a h (Inr (length h)) (h @ [ConstantNode v])"
  by (simp add: tpost_def deep_append shallow_fresh)

lemma term_fold:
  assumes "tree_at k h ep \<noteq> None"
  shows "\<exists>res h'. fold_at N k ep h = Some (res, h') \<and> tpost a h res h'"
  using assms
  by (auto simp: fold_at_def tpost_err tpost_alloc split: sum.splits)

lemma tpost_trans:
  assumes 1: "tpost a h (Inr p) h1" and 2: "tpost a h1 res h2"
  shows "tpost a h res h2"
  using assms by (auto simp: tpost_def intro: deep_trans)

lemma term_zero_block:
  assumes "shallow h a ep"
  shows "\<exists>res h'. zero_block_at N op x y ep h = Some (res, h') \<and> tpost a h res h'"
  using assms by (auto simp: zero_block_at_def tpost_keep tpost_err tpost_alloc)

lemma deep_slip:
  assumes a: "a < length h" and n: "h ! a = BinaryNode bl br op"
    and c: "constant_at h bl = Some x"
  shows "deep h ((h @ [ConstantNode c])[a := BinaryNode (length h) br MULT])"
proof (rule deep_trans [OF deep_append])
  let ?h = "h @ [ConstantNode c]"
  show "deep ?h (?h[a := BinaryNode (length h) br MULT])"
  proof (rule deep_update)
    show "a < length ?h" using a by simp
    fix j c' assume w: "tree_at (Suc j) ?h a \<noteq> None"
      and c': "c' \<in> children (BinaryNode (length h) br MULT)"
    have na: "?h ! a = BinaryNode bl br op" using a n by (simp add: nth_append)
    from tree_at_children [OF w, of bl] na have "tree_at j ?h bl \<noteq> None" by simp
    then obtain i where j: "j = Suc i" by (cases j) auto
    from tree_at_children [OF w, of br] na have "tree_at j ?h br \<noteq> None" by simp
    with c' j show "tree_at j ?h c' \<noteq> None" by auto
  qed
qed

lemma term_plus_minus:
  assumes a: "a < length h" and n: "h ! a = BinaryNode bl br op"
    and w: "tree_at k h a \<noteq> None"
    and l: "left = constant_at h bl"
  shows "\<exists>res h'. plus_minus_at N k a left right a h = Some (res, h') \<and> tpost a h res h'"
proof -
  have ch: "shallow h a bl" "shallow h a br" using n by (auto intro: shallow_child)
  note sr = shallow_refl [of h a]
  show ?thesis
  proof (cases "op = PLUS \<or> op = MINUS")
    case False
    with n sr show ?thesis by (auto simp: plus_minus_at_def tpost_keep)
  next
    case True
    show ?thesis
    proof (cases left)
      case None
      with n sr ch True show ?thesis
        by (cases right) (auto simp: plus_minus_at_def tpost_keep)
    next
      case (Some x)
      show ?thesis
      proof (cases right)
        case None
        have "tpost a h (Inr a) ((h @ [ConstantNode c])[a := BinaryNode (length h) br MULT])" for c
          using deep_slip [OF a n, of x c] Some l by (simp add: tpost_def shallow_refl)
        with n sr ch True Some None slip_heap [OF a n] show ?thesis
          by (auto simp: plus_minus_at_def tpost_keep)
      next
        case (Some y)
        with n sr ch True \<open>left = Some x\<close> term_fold [OF w, of N a] show ?thesis
          by (auto simp: plus_minus_at_def tpost_keep)
      qed
    qed
  qed
qed

lemma term_mult_div:
  assumes n: "h ! a = BinaryNode bl br op"
    and w: "tree_at k h a \<noteq> None" and e: "shallow h a ep"
  shows "\<exists>res h'. mult_div_at N k a left right ep h = Some (res, h') \<and> tpost a h res h'"
proof -
  have ch: "shallow h a bl" "shallow h a br" using n by (auto intro: shallow_child)
  show ?thesis
  proof (cases "op = MULT \<or> op = DIV")
    case False
    with n e show ?thesis by (auto simp: mult_div_at_def tpost_keep)
  next
    case True
    show ?thesis
    proof (cases left)
      case None
      with n e ch True show ?thesis
        by (cases right) (auto simp: mult_div_at_def tpost_keep tpost_alloc Let_def)
    next
      case (Some x)
      show ?thesis
      proof (cases right)
        case None
        with n e ch True Some show ?thesis
          by (auto simp: mult_div_at_def tpost_keep tpost_alloc Let_def)
      next
        case (Some y)
        from term_zero_block [OF e, of N op x y] obtain r1 h1 where
          z: "zero_block_at N op x y ep h = Some (r1, h1)" and p1: "tpost a h r1 h1" by blast
        show ?thesis
        proof (cases r1)
          case (Inl err)
          with n True \<open>left = Some x\<close> Some z p1 show ?thesis
            by (auto simp: mult_div_at_def)
        next
          case (Inr ep1)
          show ?thesis
          proof (cases "T_eq N x (T_of N 1) \<or> T_eq N y (T_of N 1)")
            case False
            with n True \<open>left = Some x\<close> Some z p1 Inr show ?thesis
              by (auto simp: mult_div_at_def)
          next
            case one: True
            from p1 Inr have d: "deep h h1" and s1: "shallow h1 a ep1" by (auto simp: tpost_def)
            from deepD [OF d w] have "tree_at k h1 a \<noteq> None" .
            from shallowD [OF s1 this] have "tree_at k h1 ep1 \<noteq> None" .
            from term_fold [OF this, of N a] obtain res h' where
              f: "fold_at N k ep1 h1 = Some (res, h')" and p2: "tpost a h1 res h'" by blast
            from tpost_trans [OF _ p2] p1 Inr have "tpost a h res h'" by simp
            with n True \<open>left = Some x\<close> Some z Inr one f show ?thesis
              by (auto simp: mult_div_at_def)
          qed
        qed
      qed
    qed
  qed
qed

lemma term_rewrite:
  assumes a: "a < length h" and n: "h ! a = BinaryNode bl br op"
    and w: "tree_at k h a \<noteq> None"
  shows "\<exists>res h'. rewrite_at N k a h = Some (res, h') \<and> tpost a h res h'"
proof -
  let ?left = "constant_at h bl" and ?right = "constant_at h br"
  from term_plus_minus [OF a n w refl, of N ?right] obtain r1 h1 where
    b1: "plus_minus_at N k a ?left ?right a h = Some (r1, h1)" and p1: "tpost a h r1 h1"
    by blast
  show ?thesis
  proof (cases r1)
    case (Inl err)
    with n b1 p1 show ?thesis by (auto simp: rewrite_at_def)
  next
    case (Inr ep1)
    from post_plus_minus [OF b1 a, of "{a}" UNIV] have "grows h h1" by (simp add: post_def)
    from grows_kind [OF this a] n obtain bl1 br1 op1 where n1: "h1 ! a = BinaryNode bl1 br1 op1"
      by (auto split: node.splits)
    from p1 Inr have d: "deep h h1" and s1: "shallow h1 a ep1" by (auto simp: tpost_def)
    from term_mult_div [OF n1 deepD [OF d w] s1, of N ?left ?right] obtain res h' where
      b2: "mult_div_at N k a ?left ?right ep1 h1 = Some (res, h')" and p2: "tpost a h1 res h'"
      by blast
    from tpost_trans [OF _ p2] p1 Inr have "tpost a h res h'" by simp
    with n b1 Inr b2 show ?thesis by (auto simp: rewrite_at_def)
  qed
qed

lemma frame_unreachable:
  assumes o: "optimize_at N k c h = Some (res, h1)" and a: "a < length h"
    and n: "a \<notin> reachable h c"
  shows "h1 ! a = h ! a"
  using optimize_at_post [OF o] a n by (simp add: post_def frame_def)

lemma optimize_at_returns:
  "tree_at k h a \<noteq> None \<Longrightarrow> \<exists>res h'. optimize_at N k a h = Some (res, h') \<and> tpost a h res h'"
proof (induction k arbitrary: a h)
  case 0
  then show ?case by simp
next
  case (Suc k)
  from Suc.prems obtain t where t: "tree_at (Suc k) h a = Some t" by auto
  then have a: "a < length h" by (rule tree_at_valid)
  show ?case
  proof (cases "h ! a")
    case (ConstantNode v)
    with a show ?thesis by (simp add: tpost_keep shallow_refl)
  next
    case (VarNode x)
    with a show ?thesis by (simp add: tpost_keep shallow_refl)
  next
    case (MonoNode e f)
    then have ce: "e \<in> children (h ! a)" by simp
    from Suc.IH [OF tree_at_children [OF Suc.prems ce]] obtain r1 h1 where
      c: "optimize_at N k e h = Some (r1, h1)" and p1: "tpost e h r1 h1" by blast
    show ?thesis
    proof (cases r1)
      case (Inl err)
      with a MonoNode c p1 show ?thesis by (auto simp: tpost_def)
    next
      case (Inr e')
      from frame_unreachable [OF c a acyclic_child [OF t ce]] MonoNode
      have n1: "h1 ! a = MonoNode e f" by simp
      from p1 Inr have d1: "deep h h1" and s1: "shallow h1 e e'" by (auto simp: tpost_def)
      from deepD [OF d1 Suc.prems] obtain t1 where "tree_at (Suc k) h1 a = Some t1" by auto
      then have a1: "a < length h1" by (rule tree_at_valid)
      have "deep h1 (h1[a := MonoNode e' f])"
      proof (rule deep_update [OF a1])
        fix j c' assume w: "tree_at (Suc j) h1 a \<noteq> None" and c': "c' \<in> children (MonoNode e' f)"
        from tree_at_children [OF w, of e] n1 have "tree_at j h1 e \<noteq> None" by simp
        from shallowD [OF s1 this] c' show "tree_at j h1 c' \<noteq> None" by simp
      qed
      with d1 have "tpost a h (Inr a) (h1[a := MonoNode e' f])"
        by (auto simp: tpost_def shallow_refl intro: deep_trans)
      with a MonoNode c Inr n1 show ?thesis by (simp add: set_expr_def)
    qed
  next
    case (BinaryNode l r op)
    then have cl: "l \<in> children (h ! a)" and cr: "r \<in> children (h ! a)" by simp_all
    from Suc.IH [OF tree_at_children [OF Suc.prems cl]] obtain r1 h1 where
      c1: "optimize_at N k l h = Some (r1, h1)" and p1: "tpost l h r1 h1" by blast
    show ?thesis
    proof (cases r1)
      case (Inl err)
      with a BinaryNode c1 p1 show ?thesis by (auto simp: tpost_def)
    next
      case (Inr l')
      from frame_unreachable [OF c1 a acyclic_child [OF t cl]] BinaryNode
      have n1: "h1 ! a = BinaryNode l r op" by simp
      from p1 Inr have d1: "deep h h1" and s1: "shallow h1 l l'" by (auto simp: tpost_def)
      from deepD [OF d1 Suc.prems] obtain t1 where "tree_at (Suc k) h1 a = Some t1" by auto
      then have a1: "a < length h1" by (rule tree_at_valid)
      define h2 where "h2 = h1[a := BinaryNode l' r op]"
      have h2: "set_left a l' h1 = h2" using n1 by (simp add: set_left_def h2_def)
      have n2: "h2 ! a = BinaryNode l' r op" using a1 by (simp add: h2_def)
      have a2: "a < length h2" using a1 by (simp add: h2_def)
      have d12: "deep h1 h2"
        unfolding h2_def
      proof (rule deep_update [OF a1])
        fix j c' assume w: "tree_at (Suc j) h1 a \<noteq> None"
          and c': "c' \<in> children (BinaryNode l' r op)"
        from tree_at_children [OF w, of l] n1 have "tree_at j h1 l \<noteq> None" by simp
        from shallowD [OF s1 this] have "tree_at j h1 l' \<noteq> None" .
        moreover from tree_at_children [OF w, of r] n1 have "tree_at j h1 r \<noteq> None" by simp
        ultimately show "tree_at j h1 c' \<noteq> None" using c' by auto
      qed
      from d1 d12 have d2: "deep h h2" by (rule deep_trans)
      from deepD [OF d2 Suc.prems] obtain t2 where t2: "tree_at (Suc k) h2 a = Some t2" by auto
      have cr2: "r \<in> children (h2 ! a)" using n2 by simp
      from t2 have w2: "tree_at (Suc k) h2 a \<noteq> None" by simp
      from Suc.IH [OF tree_at_children [OF w2 cr2]] obtain r3 h3 where
        c2: "optimize_at N k r h2 = Some (r3, h3)" and p3: "tpost r h2 r3 h3" by blast
      from p3 have d23: "deep h2 h3" by (simp add: tpost_def)
      show ?thesis
      proof (cases r3)
        case (Inl err)
        with a BinaryNode c1 \<open>r1 = Inr l'\<close> h2 n2 c2 d2 d23 show ?thesis
          by (auto simp: tpost_def intro: deep_trans)
      next
        case (Inr r')
        from frame_unreachable [OF c2 a2 acyclic_child [OF t2 cr2]] n2
        have n3: "h3 ! a = BinaryNode l' r op" by simp
        from p3 Inr have s3: "shallow h3 r r'" by (auto simp: tpost_def)
        from deepD [OF d23 w2] obtain t3 where "tree_at (Suc k) h3 a = Some t3" by auto
        then have a3: "a < length h3" by (rule tree_at_valid)
        define h4 where "h4 = h3[a := BinaryNode l' r' op]"
        have h4: "set_right a r' h3 = h4" using n3 by (simp add: set_right_def h4_def)
        have n4: "h4 ! a = BinaryNode l' r' op" using a3 by (simp add: h4_def)
        have a4: "a < length h4" using a3 by (simp add: h4_def)
        have d34: "deep h3 h4"
          unfolding h4_def
        proof (rule deep_update [OF a3])
          fix j c' assume w: "tree_at (Suc j) h3 a \<noteq> None"
            and c': "c' \<in> children (BinaryNode l' r' op)"
          from tree_at_children [OF w, of r] n3 have "tree_at j h3 r \<noteq> None" by simp
          from shallowD [OF s3 this] have "tree_at j h3 r' \<noteq> None" .
          moreover from tree_at_children [OF w, of l'] n3 have "tree_at j h3 l' \<noteq> None" by simp
          ultimately show "tree_at j h3 c' \<noteq> None" using c' by auto
        qed
        from d2 d23 d34 have d4: "deep h h4" by (blast intro: deep_trans)
        from term_rewrite [OF a4 n4 deepD [OF d4 Suc.prems], of N] obtain res h' where
          rw: "rewrite_at N (Suc k) a h4 = Some (res, h')" and p5: "tpost a h4 res h'" by blast
        from d4 p5 have "tpost a h res h'" by (auto simp: tpost_def intro: deep_trans)
        with a BinaryNode c1 \<open>r1 = Inr l'\<close> h2 n2 c2 Inr h4 rw show ?thesis
          by simp
      qed
    qed
  qed
qed

lemmas heap_eval = eval_nat_numeral set_left_def set_right_def set_expr_def set_op_def
  rewrite_at_def plus_minus_at_def mult_div_at_def zero_block_at_def fold_at_def
  constant_at_def double_numeric_def

subsection \<open>The two models of optimize agree\<close>

lemma reachable_valid:
  assumes "tree_at k h p = Some t" and "y \<in> reachable h p"
  shows "y < length h"
proof -
  from tree_at_reachable_size [OF assms(2,1)] obtain j ty where "tree_at j h y = Some ty"
    by blast
  then show ?thesis by (rule tree_at_valid)
qed

lemma addrs_self: "tree_at k h p = Some t \<Longrightarrow> p \<in> set (addrs k h p)"
  by (cases k) auto

lemma addrs_closed:
  "tree_at k h p = Some t \<Longrightarrow> y \<in> set (addrs k h p) \<Longrightarrow> z \<in> children (h ! y)
     \<Longrightarrow> z \<in> set (addrs k h p)"
proof (induction k arbitrary: p t)
  case 0
  then show ?case by simp
next
  case (Suc k)
  from Suc.prems(1) have p: "p < length h" by (rule tree_at_valid)
  show ?case
  proof (cases "h ! p")
    case (ConstantNode v)
    with Suc.prems show ?thesis by auto
  next
    case (VarNode x)
    with Suc.prems show ?thesis by auto
  next
    case (MonoNode e f)
    with Suc.prems(1) p obtain te where e: "tree_at k h e = Some te"
      by (auto split: option.splits)
    show ?thesis
    proof (cases "y = p")
      case True
      with Suc.prems(3) MonoNode addrs_self [OF e] show ?thesis by simp
    next
      case False
      with Suc.prems(2) MonoNode have "y \<in> set (addrs k h e)" by simp
      from Suc.IH [OF e this Suc.prems(3)] MonoNode show ?thesis by simp
    qed
  next
    case (BinaryNode l r op)
    with Suc.prems(1) p obtain t1 t2 where l: "tree_at k h l = Some t1"
      and r: "tree_at k h r = Some t2"
      by (auto split: option.splits)
    show ?thesis
    proof (cases "y = p")
      case True
      with Suc.prems(3) BinaryNode addrs_self [OF l] addrs_self [OF r] show ?thesis by auto
    next
      case False
      with Suc.prems(2) BinaryNode have "y \<in> set (addrs k h l) \<or> y \<in> set (addrs k h r)"
        by auto
      with Suc.IH [OF l _ Suc.prems(3)] Suc.IH [OF r _ Suc.prems(3)] BinaryNode
      show ?thesis by auto
    qed
  qed
qed

lemma reachable_addrs:
  assumes t: "tree_at k h p = Some t" and y: "y \<in> reachable h p"
  shows "y \<in> set (addrs k h p)"
proof -
  from y have "(p, y) \<in> (edges h)\<^sup>*" by (simp add: reachable_def)
  then show ?thesis
  proof (induction rule: rtrancl_induct)
    case base
    from addrs_self [OF t] show ?case .
  next
    case (step y z)
    from step.hyps(2) have "z \<in> children (h ! y)" by (simp add: edges_def)
    from addrs_closed [OF t step.IH this] show ?case .
  qed
qed

lemma reachable_agree:
  assumes t: "tree_at k h p = Some t"
    and ag: "\<And>b. b \<in> reachable h p \<Longrightarrow> h' ! b = h ! b"
    and y: "y \<in> reachable h' p"
  shows "y \<in> reachable h p"
proof -
  from y have "(p, y) \<in> (edges h')\<^sup>*" by (simp add: reachable_def)
  then show ?thesis
  proof (induction rule: rtrancl_induct)
    case base
    show ?case by (rule reachable_refl)
  next
    case (step y z)
    from step.hyps(2) have "z \<in> children (h' ! y)" by (simp add: edges_def)
    with ag [OF step.IH] have "z \<in> children (h ! y)" by simp
    from reachable_step [OF step.IH reachable_valid [OF t step.IH] this] show ?case .
  qed
qed

lemma tree_at_agree:
  assumes "tree_at k h p = Some t" and "length h \<le> length h'"
    and "\<And>b. b \<in> reachable h p \<Longrightarrow> h' ! b = h ! b"
  shows "tree_at k h' p = Some t \<and> addrs k h' p = addrs k h p"
  using assms
proof (induction k arbitrary: p t)
  case 0
  then show ?case by simp
next
  case (Suc k)
  from Suc.prems(1) have p: "p < length h" by (rule tree_at_valid)
  have n: "h' ! p = h ! p" by (rule Suc.prems(3)) (rule reachable_refl)
  have sub: "\<And>c b. c \<in> children (h ! p) \<Longrightarrow> b \<in> reachable h c \<Longrightarrow> h' ! b = h ! b"
    using reachable_sub [OF p] Suc.prems(3) by blast
  show ?case
  proof (cases "h ! p")
    case (ConstantNode v)
    with Suc.prems p n show ?thesis by auto
  next
    case (VarNode x)
    with Suc.prems p n show ?thesis by auto
  next
    case (MonoNode e f)
    with Suc.prems(1) p obtain te where e: "tree_at k h e = Some te" "t = MonoExpression te f"
      by (auto split: option.splits)
    from Suc.IH [OF e(1) Suc.prems(2) sub [of e]] MonoNode
    have "tree_at k h' e = Some te \<and> addrs k h' e = addrs k h e" by simp
    with e MonoNode n p Suc.prems(2) show ?thesis by simp
  next
    case (BinaryNode l r op)
    with Suc.prems(1) p obtain t1 t2 where l: "tree_at k h l = Some t1"
      and r: "tree_at k h r = Some t2" and t: "t = BinaryExpression t1 t2 op"
      by (auto split: option.splits)
    from Suc.IH [OF l Suc.prems(2) sub [of l]] BinaryNode
    have 1: "tree_at k h' l = Some t1 \<and> addrs k h' l = addrs k h l" by simp
    from Suc.IH [OF r Suc.prems(2) sub [of r]] BinaryNode
    have 2: "tree_at k h' r = Some t2 \<and> addrs k h' r = addrs k h r" by simp
    from 1 2 t BinaryNode n p Suc.prems(2) show ?thesis by simp
  qed
qed

lemma constant_at_tree: "tree_at k h p = Some t \<Longrightarrow> constant_at h p = as_constant t"
proof -
  assume t: "tree_at k h p = Some t"
  then obtain j where "k = Suc j" by (cases k) auto
  with t tree_at_valid [OF t] show ?thesis
    by (cases "h ! p") (auto simp: constant_at_def split: option.splits)
qed

lemma addrs_mono: "tree_at k h p = Some t \<Longrightarrow> k \<le> k' \<Longrightarrow> addrs k' h p = addrs k h p"
proof (induction k arbitrary: p t k')
  case 0
  then show ?case by simp
next
  case (Suc k)
  from Suc.prems(2) obtain m where k': "k' = Suc m" and km: "k \<le> m" by (cases k') auto
  from Suc.prems(1) have p: "p < length h" by (rule tree_at_valid)
  show ?case
  proof (cases "h ! p")
    case (ConstantNode v)
    with k' show ?thesis by simp
  next
    case (VarNode x)
    with k' show ?thesis by simp
  next
    case (MonoNode e f)
    with Suc.prems p obtain te where "tree_at k h e = Some te"
      by (auto split: option.splits)
    with Suc.IH [OF _ km] MonoNode k' show ?thesis by simp
  next
    case (BinaryNode l r op)
    with Suc.prems p obtain t1 t2 where "tree_at k h l = Some t1" "tree_at k h r = Some t2"
      by (auto split: option.splits)
    with Suc.IH [OF _ km] BinaryNode k' show ?thesis by simp
  qed
qed

lemma addrs_reachable: "tree_at k h p = Some t \<Longrightarrow> set (addrs k h p) \<subseteq> reachable h p"
proof (induction k arbitrary: p t)
  case 0
  then show ?case by simp
next
  case (Suc k)
  from Suc.prems have p: "p < length h" by (rule tree_at_valid)
  show ?case
  proof (cases "h ! p")
    case (ConstantNode v)
    then show ?thesis by (simp add: reachable_refl)
  next
    case (VarNode x)
    then show ?thesis by (simp add: reachable_refl)
  next
    case (MonoNode e f)
    with Suc.prems p obtain te where "tree_at k h e = Some te"
      by (auto split: option.splits)
    from Suc.IH [OF this] reachable_sub [OF p, of e] MonoNode show ?thesis
      by (auto simp: reachable_refl)
  next
    case (BinaryNode l r op)
    with Suc.prems p obtain t1 t2 where "tree_at k h l = Some t1" "tree_at k h r = Some t2"
      by (auto split: option.splits)
    from Suc.IH [OF this(1)] Suc.IH [OF this(2)] reachable_sub [OF p, of l]
      reachable_sub [OF p, of r] BinaryNode
    show ?thesis by (auto simp: reachable_refl)
  qed
qed

lemma addrs_valid: "tree_at k h p = Some t \<Longrightarrow> y \<in> set (addrs k h p) \<Longrightarrow> y < length h"
  using addrs_reachable reachable_valid by blast

lemma tree_append:
  assumes "tree_at k h p = Some t"
  shows "tree_at k (h @ xs) p = Some t" and "addrs k (h @ xs) p = addrs k h p"
proof -
  have "(h @ xs) ! b = h ! b" if "b \<in> reachable h p" for b
    using reachable_valid [OF assms that] by (simp add: nth_append)
  from tree_at_agree [OF assms _ this]
  show "tree_at k (h @ xs) p = Some t" and "addrs k (h @ xs) p = addrs k h p" by simp_all
qed

lemma sim_tree: "sim k a h ep s \<Longrightarrow> tree_at (Suc k) h ep = Some (resolve s)"
  by (cases "expr s") (auto simp: sim_def resolve_def)

lemma sim_tree_node:
  "sim k a h ep s \<Longrightarrow>
     tree_at (Suc k) h a
       = Some (BinaryExpression (binary_left s) (binary_right s) (binary_op s))"
  by (auto simp: sim_def)

lemma sim_distinct: "sim k a h ep s \<Longrightarrow> distinct (addrs (Suc k) h ep)"
  by (cases "expr s") (auto simp: sim_def)

lemma sim_append:
  assumes "sim k a h ep s"
  shows "sim k a (h @ xs) ep s"
proof -
  from assms obtain bl br where a: "a < length h"
    and n: "h ! a = BinaryNode bl br (binary_op s)"
    and l: "tree_at k h bl = Some (binary_left s)"
    and r: "tree_at k h br = Some (binary_right s)"
    and d: "distinct (addrs (Suc k) h a)"
    by (auto simp: sim_def)
  from assms have e: "case expr s of This \<Rightarrow> ep = a
    | That e \<Rightarrow> tree_at (Suc k) h ep = Some e \<and> distinct (addrs (Suc k) h ep)"
    by (simp add: sim_def)
  have e': "case expr s of This \<Rightarrow> ep = a
            | That e \<Rightarrow> tree_at (Suc k) (h @ xs) ep = Some e
                        \<and> distinct (addrs (Suc k) (h @ xs) ep)"
  proof (cases "expr s")
    case This
    with e show ?thesis by simp
  next
    case (That t)
    with e have "tree_at (Suc k) h ep = Some t" "distinct (addrs (Suc k) h ep)" by simp_all
    with tree_append [OF this(1), of xs] That show ?thesis by simp
  qed
  from a n have n': "(h @ xs) ! a = BinaryNode bl br (binary_op s)" by (simp add: nth_append)
  from tree_append(2) [OF sim_tree_node [OF assms], of xs] d
  have d': "distinct (addrs (Suc k) (h @ xs) a)" by simp
  from a n' tree_append(1) [OF l] tree_append(1) [OF r] e' d' show ?thesis
    unfolding sim_def by auto
qed

lemma sim_redirect:
  "sim k a h ep s \<Longrightarrow> tree_at (Suc k) h p = Some e \<Longrightarrow> distinct (addrs (Suc k) h p)
     \<Longrightarrow> sim k a h p (s\<lparr>expr := That e\<rparr>)"
  by (auto simp: sim_def)

lemma sim_left:
  assumes "sim k a h ep s" and "h ! a = BinaryNode bl br op"
  shows "sim k a h bl (s\<lparr>expr := That (binary_left s)\<rparr>)"
proof -
  from assms have t: "tree_at k h bl = Some (binary_left s)"
    and d: "distinct (addrs k h bl)" by (auto simp: sim_def)
  from tree_at_mono [OF t, of "Suc k"] have 1: "tree_at (Suc k) h bl = Some (binary_left s)"
    by simp
  from addrs_mono [OF t, of "Suc k"] d have 2: "distinct (addrs (Suc k) h bl)" by simp
  from sim_redirect [OF assms(1) 1 2] show ?thesis .
qed

lemma sim_right:
  assumes "sim k a h ep s" and "h ! a = BinaryNode bl br op"
  shows "sim k a h br (s\<lparr>expr := That (binary_right s)\<rparr>)"
proof -
  from assms have t: "tree_at k h br = Some (binary_right s)"
    and d: "distinct (addrs k h br)" by (auto simp: sim_def)
  from tree_at_mono [OF t, of "Suc k"] have 1: "tree_at (Suc k) h br = Some (binary_right s)"
    by simp
  from addrs_mono [OF t, of "Suc k"] d have 2: "distinct (addrs (Suc k) h br)" by simp
  from sim_redirect [OF assms(1) 1 2] show ?thesis .
qed

lemma sim_alloc:
  assumes "sim k a h ep s"
  shows "sim k a (h @ [ConstantNode v]) (length h) (s\<lparr>expr := That (ConstantExpression v)\<rparr>)"
  by (rule sim_redirect [OF sim_append [OF assms]]) simp_all

lemma sim_fold:
  assumes s: "sim k a h ep s" and f: "fold_at N (Suc k) ep h = Some (res, h')"
  shows "rel k a (fold_expr N s) res h'"
  using f sim_tree [OF s] sim_alloc [OF s]
  by (auto simp: fold_at_def fold_expr_def rel_def split: sum.splits)

lemma sim_slip:
  assumes s: "sim k a h a s" and e: "expr s = This" and n: "h ! a = BinaryNode bl br op"
  shows "sim k a ((h @ [ConstantNode c])[a := BinaryNode (length h) br MULT]) a
           (s\<lparr>binary_op := MULT, binary_left := ConstantExpression c\<rparr>)"
proof -
  let ?h = "(h @ [ConstantNode c])[a := BinaryNode (length h) br MULT]"
  from s n have a: "a < length h" and l: "tree_at k h bl = Some (binary_left s)"
    and r: "tree_at k h br = Some (binary_right s)"
    and d: "a \<notin> set (addrs k h br)" "distinct (addrs k h br)" by (auto simp: sim_def)
  from l obtain j where k: "k = Suc j" by (cases k) auto
  from sim_tree [OF s] have ta: "tree_at (Suc k) h a = Some (resolve s)" .
  have "br \<in> children (h ! a)" using n by simp
  from acyclic_child [OF ta this] have nr: "a \<notin> reachable h br" .
  have "tree_at k ?h br = Some (binary_right s) \<and> addrs k ?h br = addrs k h br"
  proof (rule tree_at_agree [OF r])
    show "length h \<le> length ?h" by simp
    fix b assume b: "b \<in> reachable h br"
    with nr have "b \<noteq> a" by blast
    with reachable_valid [OF r b] show "?h ! b = h ! b" by (simp add: nth_append)
  qed
  then have tb: "tree_at k ?h br = Some (binary_right s)"
    and ab: "addrs k ?h br = addrs k h br"
    by simp_all
  have tc: "tree_at k ?h (length h) = Some (ConstantExpression c)"
    and ac: "addrs k ?h (length h) = [length h]"
    using k a by simp_all
  have na: "?h ! a = BinaryNode (length h) br MULT" using a by simp
  from addrs_valid [OF r] have "length h \<notin> set (addrs k h br)" by auto
  with d a ab ac na have da: "distinct (addrs (Suc k) ?h a)" by simp
  from tb tc na da a e show ?thesis unfolding sim_def by simp
qed

lemma rel_keep: "sim k a h ep s \<Longrightarrow> rel k a (Inr s) (Inr ep) h"
  by (auto simp: rel_def)

lemma sim_plus_minus:
  assumes s: "sim k a h a s" and e: "expr s = This"
    and r: "plus_minus_at N (Suc k) a left right a h = Some (res, h')"
  shows "rel k a (plus_minus_block N left right s) res h'"
proof -
  from s obtain bl br where n: "h ! a = BinaryNode bl br (binary_op s)" and a: "a < length h"
    by (auto simp: sim_def)
  note sl = sim_left [OF s n] and sr = sim_right [OF s n]
  show ?thesis
  proof (cases "binary_op s = PLUS \<or> binary_op s = MINUS")
    case False
    with r n s show ?thesis
      by (auto simp: plus_minus_at_def plus_minus_block_def rel_keep)
  next
    case True
    show ?thesis
    proof (cases left)
      case None
      with r n s sl sr True show ?thesis
        by (cases right)
           (auto simp: plus_minus_at_def plus_minus_block_def rel_keep split: if_splits)
    next
      case (Some x)
      show ?thesis
      proof (cases right)
        case None
        note sim_slip [OF s e n, of "T_of N (- 1)"]
        with r n s sl sr True Some None slip_heap [OF a n] show ?thesis
          by (auto simp: plus_minus_at_def plus_minus_block_def rel_keep split: if_splits)
      next
        case (Some y)
        with r n s True \<open>left = Some x\<close> sim_fold [OF s, of N] show ?thesis
          by (auto simp: plus_minus_at_def plus_minus_block_def rel_keep split: if_splits)
      qed
    qed
  qed
qed

lemma sim_zero_block:
  assumes s: "sim k a h ep s"
    and r: "zero_block_at N (binary_op s) x y ep h = Some (res, h')"
  shows "rel k a (zero_block N x y s) res h'"
  using r s sim_alloc [OF s, of "T_of N 0"]
  by (auto simp: zero_block_at_def zero_block_def rel_def split: if_splits)

lemma sim_mult_div:
  assumes s: "sim k a h ep s"
    and r: "mult_div_at N (Suc k) a left right ep h = Some (res, h')"
  shows "rel k a (mult_div_block N left right s) res h'"
proof -
  from s obtain bl br where n: "h ! a = BinaryNode bl br (binary_op s)" and a: "a < length h"
    by (auto simp: sim_def)
  note sl = sim_left [OF s n] and sr = sim_right [OF s n]
  note z = sim_alloc [OF s, of "T_of N 0"]
  show ?thesis
  proof (cases "binary_op s = MULT \<or> binary_op s = DIV")
    case False
    with r n s show ?thesis
      by (auto simp: mult_div_at_def mult_div_block_def rel_keep)
  next
    case True
    show ?thesis
    proof (cases left)
      case None
      with r n s sl sr z True show ?thesis
        by (cases right)
           (auto simp: mult_div_at_def mult_div_block_def rel_keep Let_def split: if_splits)
    next
      case (Some x)
      show ?thesis
      proof (cases right)
        case None
        with r n s sl sr z True Some show ?thesis
          by (auto simp: mult_div_at_def mult_div_block_def rel_keep Let_def split: if_splits)
      next
        case (Some y)
        with r n True \<open>left = Some x\<close> obtain r1 h1 where
          zb: "zero_block_at N (binary_op s) x y ep h = Some (r1, h1)"
          and f: "(case r1 of Inl err \<Rightarrow> Some (Inl err, h1)
                   | Inr ep1 \<Rightarrow> if T_eq N x (T_of N 1) \<or> T_eq N y (T_of N 1)
                                then fold_at N (Suc k) ep1 h1 else Some (Inr ep1, h1))
                  = Some (res, h')"
          by (auto simp: mult_div_at_def split: option.splits sum.splits prod.splits)
        from sim_zero_block [OF s zb] have r1: "rel k a (zero_block N x y s) r1 h1" .
        have m: "mult_div_block N left right s =
                   (case zero_block N x y s of
                      Inl err \<Rightarrow> Inl err
                    | Inr s1 \<Rightarrow> if T_eq N x (T_of N 1) \<or> T_eq N y (T_of N 1)
                                then fold_expr N s1 else Inr s1)"
          using True Some \<open>left = Some x\<close> by (simp add: mult_div_block_def)
        show ?thesis
        proof (cases r1)
          case (Inl err)
          with f r1 m show ?thesis by (auto simp: rel_def)
        next
          case (Inr ep1)
          with r1 obtain s1 where z1: "zero_block N x y s = Inr s1" and s1: "sim k a h1 ep1 s1"
            by (auto simp: rel_def)
          show ?thesis
          proof (cases "T_eq N x (T_of N 1) \<or> T_eq N y (T_of N 1)")
            case one: True
            with f Inr have "fold_at N (Suc k) ep1 h1 = Some (res, h')" by simp
            from sim_fold [OF s1 this] m z1 one show ?thesis by simp
          next
            case False
            with f Inr m z1 s1 show ?thesis by (auto simp: rel_def)
          qed
        qed
      qed
    qed
  qed
qed

lemma sim_rewrite:
  assumes a: "a < length h" and n: "h ! a = BinaryNode bl br op"
    and l: "tree_at k h bl = Some t1" and r: "tree_at k h br = Some t2"
    and d: "distinct (addrs (Suc k) h a)"
    and rw: "rewrite_at N (Suc k) a h = Some (res, h')"
  shows "case res of
           Inl err \<Rightarrow> rewrite_binary N t1 t2 op = Inl err
         | Inr p \<Rightarrow> (\<exists>t'. rewrite_binary N t1 t2 op = Inr t' \<and> tree_at (Suc k) h' p = Some t'
                         \<and> distinct (addrs (Suc k) h' p))"
proof -
  let ?left = "as_constant t1" and ?right = "as_constant t2"
  let ?s = "\<lparr>expr = This, binary_left = t1, binary_right = t2, binary_op = op\<rparr>"
  have s: "sim k a h a ?s" using a n l r d by (simp add: sim_def del: addrs.simps)
  from constant_at_tree [OF l] constant_at_tree [OF r]
  have c: "constant_at h bl = ?left" "constant_at h br = ?right" .
  from rw n c obtain r1 h1 where
    b1: "plus_minus_at N (Suc k) a ?left ?right a h = Some (r1, h1)"
    and b2: "(case r1 of Inl err \<Rightarrow> Some (Inl err, h1)
              | Inr ep1 \<Rightarrow> mult_div_at N (Suc k) a ?left ?right ep1 h1) = Some (res, h')"
    by (auto simp: rewrite_at_def Let_def split: option.splits sum.splits prod.splits)
  from sim_plus_minus [OF s _ b1] have p1: "rel k a (plus_minus_block N ?left ?right ?s) r1 h1"
    by simp
  show ?thesis
  proof (cases r1)
    case (Inl err)
    with b2 p1 show ?thesis by (auto simp: rel_def rewrite_binary_def)
  next
    case (Inr ep1)
    with p1 obtain s1 where pm: "plus_minus_block N ?left ?right ?s = Inr s1"
      and s1: "sim k a h1 ep1 s1" by (auto simp: rel_def)
    from b2 Inr have "mult_div_at N (Suc k) a ?left ?right ep1 h1 = Some (res, h')" by simp
    from sim_mult_div [OF s1 this] have p2: "rel k a (mult_div_block N ?left ?right s1) res h'" .
    show ?thesis
    proof (cases res)
      case (Inl err)
      with p2 pm show ?thesis by (simp add: rel_def rewrite_binary_def)
    next
      case (Inr p)
      with p2 obtain s2 where "mult_div_block N ?left ?right s1 = Inr s2" "sim k a h' p s2"
        by (auto simp: rel_def)
      with pm Inr sim_tree [of k a h' p s2] sim_distinct [of k a h' p s2] show ?thesis
        by (simp add: rewrite_binary_def del: tree_at.simps addrs.simps)
    qed
  qed
qed

lemma reach_after:
  assumes g: "grows h h1" and x: "x \<in> reachable h c \<or> length h \<le> x"
    and y: "y \<in> reachable h1 x"
  shows "y \<in> reachable h c \<or> length h \<le> y"
proof (cases "length h \<le> y")
  case True
  then show ?thesis by simp
next
  case False
  with reach_mono [OF g y] have yx: "y \<in> reachable h x" by simp
  show ?thesis
  proof (cases "length h \<le> x")
    case True
    from reachable_dangling [OF True yx] True show ?thesis by simp
  next
    case False
    with x have "x \<in> reachable h c" by simp
    from reachable_trans [OF this yx] show ?thesis by simp
  qed
qed

lemma not_reachable_after:
  assumes g: "grows h h1" and x: "x \<in> reachable h c \<or> length h \<le> x"
    and a: "a < length h" and n: "a \<notin> reachable h c"
  shows "a \<notin> reachable h1 x"
proof
  assume "a \<in> reachable h1 x"
  from reach_mono [OF g this] a have ax: "a \<in> reachable h x" by simp
  show False
  proof (cases "length h \<le> x")
    case True
    from reachable_dangling [OF True ax] a True show False by simp
  next
    case False
    with x have "x \<in> reachable h c" by simp
    from reachable_trans [OF this ax] n show False by simp
  qed
qed

lemma tree_update:
  assumes t: "tree_at k h x = Some t" and n: "a \<notin> reachable h x"
  shows "tree_at k (h[a := nd]) x = Some t" and "addrs k (h[a := nd]) x = addrs k h x"
    and "reachable (h[a := nd]) x \<subseteq> reachable h x"
proof -
  have ag: "h[a := nd] ! b = h ! b" if "b \<in> reachable h x" for b
    using that n by (cases "b = a") auto
  from tree_at_agree [OF t _ ag]
  show "tree_at k (h[a := nd]) x = Some t" and "addrs k (h[a := nd]) x = addrs k h x"
    by simp_all
  from reachable_agree [OF t ag] show "reachable (h[a := nd]) x \<subseteq> reachable h x"
    by blast
qed

lemma tree_frame:
  assumes o: "optimize_at N k c h = Some (res, h1)" and t: "tree_at j h x = Some t"
    and d: "reachable h x \<inter> reachable h c = {}"
  shows "tree_at j h1 x = Some t" and "addrs j h1 x = addrs j h x"
    and "reachable h1 x \<subseteq> reachable h x"
proof -
  from optimize_at_post [OF o] have g: "grows h h1" and f: "frame (reachable h c) h h1"
    by (simp_all add: post_def)
  have ag: "h1 ! b = h ! b" if "b \<in> reachable h x" for b
    using that d f reachable_valid [OF t that] by (auto simp: frame_def)
  from tree_at_agree [OF t grows_length [OF g] ag]
  show "tree_at j h1 x = Some t" and "addrs j h1 x = addrs j h x" by simp_all
  from reachable_agree [OF t ag] show "reachable h1 x \<subseteq> reachable h x" by blast
qed

lemma optimize_at_refines_aux:
  "optimize_at N k a h = Some (res, h') \<Longrightarrow> tree_at k h a = Some t
     \<Longrightarrow> distinct (addrs k h a)
     \<Longrightarrow> (case res of
            Inl err \<Rightarrow> optimize N t = Inl err
          | Inr p \<Rightarrow> (\<exists>t'. optimize N t = Inr t' \<and> tree_at k h' p = Some t'
                          \<and> distinct (addrs k h' p)))"
proof (induction k arbitrary: a h res h' t)
  case 0
  then show ?case by simp
next
  case (Suc k)
  note o = Suc.prems(1) and t = Suc.prems(2) and dist = Suc.prems(3)
  from t have a: "a < length h" by (rule tree_at_valid)
  show ?case
  proof (cases "h ! a")
    case (ConstantNode v)
    with o t a dist show ?thesis by auto
  next
    case (VarNode x)
    with o t a dist show ?thesis by auto
  next
    case (MonoNode e f)
    with t a obtain te where te: "tree_at k h e = Some te" and tt: "t = MonoExpression te f"
      by (auto split: option.splits)
    from dist MonoNode have de: "distinct (addrs k h e)" by simp
    have ce: "e \<in> children (h ! a)" using MonoNode by simp
    note ne = acyclic_child [OF t ce]
    from o a MonoNode obtain r1 h1 where
      c: "optimize_at N k e h = Some (r1, h1)" and
      f: "(case r1 of Inl err \<Rightarrow> (Inl err, h1) | Inr e' \<Rightarrow> (Inr a, set_expr a e' h1)) = (res, h')"
      by (auto split: option.splits sum.splits prod.splits)
    note ih = Suc.IH [OF c te de]
    show ?thesis
    proof (cases r1)
      case (Inl err)
      with f ih tt show ?thesis by auto
    next
      case (Inr e')
      with ih obtain te' where ot: "optimize N te = Inr te'" and t1: "tree_at k h1 e' = Some te'"
        and d1: "distinct (addrs k h1 e')"
        by auto
      from optimize_at_post [OF c] Inr have g1: "grows h h1"
        and pe: "e' \<in> reachable h e \<or> length h \<le> e'" by (auto simp: post_def)
      from frame_unreachable [OF c a ne] MonoNode have n1: "h1 ! a = MonoNode e f" by simp
      from a grows_length [OF g1] have a1: "a < length h1" by simp
      from not_reachable_after [OF g1 pe a ne] have na: "a \<notin> reachable h1 e'" .
      note u = tree_update [OF t1 na, of "MonoNode e' f"]
      from na addrs_reachable [OF t1] have "a \<notin> set (addrs k h1 e')" by blast
      with a1 u(1,2) d1
      have "tree_at (Suc k) (h1[a := MonoNode e' f]) a = Some (MonoExpression te' f)"
        and "distinct (addrs (Suc k) (h1[a := MonoNode e' f]) a)"
        by simp_all
      with f Inr n1 ot tt show ?thesis by (auto simp: set_expr_def)
    qed
  next
    case (BinaryNode l r op)
    with t a obtain tl tr where tl: "tree_at k h l = Some tl" and tr: "tree_at k h r = Some tr"
      and tt: "t = BinaryExpression tl tr op"
      by (auto split: option.splits)
    from dist BinaryNode have dl: "distinct (addrs k h l)" and dr: "distinct (addrs k h r)"
      and dj: "set (addrs k h l) \<inter> set (addrs k h r) = {}" by auto
    from dj reachable_addrs [OF tl] reachable_addrs [OF tr]
    have disj: "reachable h r \<inter> reachable h l = {}" by blast
    have cl: "l \<in> children (h ! a)" and cr: "r \<in> children (h ! a)"
      using BinaryNode by simp_all
    note nl = acyclic_child [OF t cl] and nr = acyclic_child [OF t cr]
    from o a BinaryNode obtain r1 h1 where
      c1: "optimize_at N k l h = Some (r1, h1)" and
      f1: "(case r1 of Inl err \<Rightarrow> Some (Inl err, h1)
            | Inr l' \<Rightarrow>
                (let h2 = set_left a l' h1
                 in case h2 ! a of
                      BinaryNode l2 r2 op2 \<Rightarrow>
                        (case optimize_at N k r2 h2 of
                           None \<Rightarrow> None
                         | Some (Inl err, h3) \<Rightarrow> Some (Inl err, h3)
                         | Some (Inr r', h3) \<Rightarrow> rewrite_at N (Suc k) a (set_right a r' h3))
                    | _ \<Rightarrow> None)) = Some (res, h')"
      by (auto split: option.splits sum.splits prod.splits)
    note ih1 = Suc.IH [OF c1 tl dl]
    show ?thesis
    proof (cases r1)
      case (Inl err)
      with f1 ih1 tt show ?thesis by auto
    next
      case (Inr l')
      with ih1 obtain tl' where ol: "optimize N tl = Inr tl'"
        and t1l: "tree_at k h1 l' = Some tl'" and d1l: "distinct (addrs k h1 l')" by auto
      from optimize_at_post [OF c1] Inr have g1: "grows h h1"
        and pl: "l' \<in> reachable h l \<or> length h \<le> l'" by (auto simp: post_def)
      from frame_unreachable [OF c1 a nl] BinaryNode have n1: "h1 ! a = BinaryNode l r op"
        by simp
      from a grows_length [OF g1] have a1: "a < length h1" by simp
      note r1 = tree_frame [OF c1 tr disj]
      from not_reachable_after [OF g1 pl a nl] have nal1: "a \<notin> reachable h1 l'" .
      from r1(3) nr have nar1: "a \<notin> reachable h1 r" by blast
      define h2 where "h2 = h1[a := BinaryNode l' r op]"
      have h2: "set_left a l' h1 = h2" using n1 by (simp add: set_left_def h2_def)
      have n2: "h2 ! a = BinaryNode l' r op" using a1 by (simp add: h2_def)
      have a2: "a < length h2" using a1 by (simp add: h2_def)
      note l2 = tree_update [OF t1l nal1, of "BinaryNode l' r op", folded h2_def]
      note r2 = tree_update [OF r1(1) nar1, of "BinaryNode l' r op", folded h2_def]
      from r2(2) r1(2) dr have dr2: "distinct (addrs k h2 r)" by simp
      from r2(3) nar1 have nar2: "a \<notin> reachable h2 r" by blast
      from l2(3) nal1 have nal2: "a \<notin> reachable h2 l'" by blast
      from f1 Inr h2 n2 obtain r3 h3 where
        c2: "optimize_at N k r h2 = Some (r3, h3)" and
        f2: "(case r3 of Inl err \<Rightarrow> Some (Inl err, h3)
              | Inr r' \<Rightarrow> rewrite_at N (Suc k) a (set_right a r' h3)) = Some (res, h')"
        by (auto split: option.splits sum.splits prod.splits)
      note ih2 = Suc.IH [OF c2 r2(1) dr2]
      show ?thesis
      proof (cases r3)
        case (Inl err)
        with f2 ih2 tt ol show ?thesis by auto
      next
        case (Inr r')
        with ih2 obtain tr' where orr: "optimize N tr = Inr tr'"
          and t3r: "tree_at k h3 r' = Some tr'" and d3r: "distinct (addrs k h3 r')" by auto
        from optimize_at_post [OF c2] Inr have g3: "grows h2 h3"
          and pr: "r' \<in> reachable h2 r \<or> length h2 \<le> r'" by (auto simp: post_def)
        from frame_unreachable [OF c2 a2 nar2] n2 have n3: "h3 ! a = BinaryNode l' r op"
          by simp
        from a2 grows_length [OF g3] have a3: "a < length h3" by simp
        have disj2: "reachable h2 l' \<inter> reachable h2 r = {}"
        proof (rule ccontr)
          assume "reachable h2 l' \<inter> reachable h2 r \<noteq> {}"
          then obtain y where y1: "y \<in> reachable h2 l'" and y2: "y \<in> reachable h2 r" by blast
          from y2 r2(3) r1(3) have yr: "y \<in> reachable h r" by blast
          from y1 l2(3) have "y \<in> reachable h1 l'" by blast
          from reach_mono [OF g1 this] reachable_valid [OF tr yr]
          have "y \<in> reachable h l'" by simp
          moreover have "length h \<le> l' \<Longrightarrow> False"
          proof -
            assume d: "length h \<le> l'"
            from reachable_dangling [OF d \<open>y \<in> reachable h l'\<close>] d reachable_valid [OF tr yr]
            show False by simp
          qed
          ultimately have "y \<in> reachable h l"
            using pl by (auto intro: reachable_trans)
          with yr disj show False by blast
        qed
        note l3 = tree_frame [OF c2 l2(1) disj2]
        from l3(3) nal2 have nal3: "a \<notin> reachable h3 l'" by blast
        from not_reachable_after [OF g3 pr a2 nar2] have nar3: "a \<notin> reachable h3 r'" .
        define h4 where "h4 = h3[a := BinaryNode l' r' op]"
        have h4: "set_right a r' h3 = h4" using n3 by (simp add: set_right_def h4_def)
        have n4: "h4 ! a = BinaryNode l' r' op" using a3 by (simp add: h4_def)
        have a4: "a < length h4" using a3 by (simp add: h4_def)
        note l4 = tree_update [OF l3(1) nal3, of "BinaryNode l' r' op", folded h4_def]
        note r4 = tree_update [OF t3r nar3, of "BinaryNode l' r' op", folded h4_def]
        have al: "addrs k h4 l' = addrs k h1 l'" using l4(2) l3(2) l2(2) by simp
        have sl: "set (addrs k h4 l') \<subseteq> reachable h2 l'"
          using addrs_reachable [OF l3(1)] l3(3) l4(2) by auto
        have sr: "set (addrs k h4 r') \<subseteq> reachable h3 r'"
          using addrs_reachable [OF t3r] r4(2) by auto
        have dj4: "set (addrs k h4 l') \<inter> set (addrs k h4 r') = {}"
        proof (rule ccontr)
          assume "set (addrs k h4 l') \<inter> set (addrs k h4 r') \<noteq> {}"
          then obtain y where y1: "y \<in> reachable h2 l'" and y2: "y \<in> reachable h3 r'"
            using sl sr by blast
          from reach_after [OF g3 pr y2] reachable_valid [OF l2(1) y1]
          have "y \<in> reachable h2 r" by simp
          with y1 disj2 show False by blast
        qed
        from sl nal2 have "a \<notin> set (addrs k h4 l')" by blast
        moreover from sr nar3 have "a \<notin> set (addrs k h4 r')" by blast
        ultimately have d4: "distinct (addrs (Suc k) h4 a)"
          using n4 al d1l r4(2) d3r dj4 by simp
        from f2 Inr h4 have rw: "rewrite_at N (Suc k) a h4 = Some (res, h')" by simp
        from sim_rewrite [OF a4 n4 l4(1) r4(1) d4 rw] ol orr tt show ?thesis
          by (cases res) (simp_all del: tree_at.simps addrs.simps)
      qed
    qed
  qed
qed

text \<open>
  The function on expressions of the section on \<open>optimize\<close> is what the function on the
  store computes, for an argument that shares no node: it returns when the first returns,
  throws when the first throws, and the pointer it returns denotes the expression the
  first returns. That pointer shares no node either, so the same holds for a second call
  on it.
\<close>

lemma optimize_at_refines:
  assumes "tree_at k h a = Some t" and "distinct (addrs k h a)"
  shows "\<exists>res h'. optimize_at N k a h = Some (res, h')
           \<and> (case res of
                 Inl err \<Rightarrow> optimize N t = Inl err
               | Inr p \<Rightarrow> (\<exists>t'. optimize N t = Inr t' \<and> tree_at k h' p = Some t'
                               \<and> distinct (addrs k h' p)))"
proof -
  from assms(1) have "tree_at k h a \<noteq> None" by simp
  from optimize_at_returns [OF this, of N] obtain res h' where
    o: "optimize_at N k a h = Some (res, h')" by blast
  from optimize_at_refines_aux [OF o assms] o show ?thesis by blast
qed

lemma optimize_at_twice:
  assumes t: "tree_at k h a = Some t" and d: "distinct (addrs k h a)"
    and o: "optimize_at N k a h = Some (Inr p, h1)"
  shows "\<exists>p2 h2 t'. optimize_at N k p h1 = Some (Inr p2, h2)
           \<and> tree_at k h1 p = Some t' \<and> tree_at k h2 p2 = Some t'"
proof -
  from optimize_at_refines_aux [OF o t d] obtain t' where
    1: "optimize N t = Inr t'" and t1: "tree_at k h1 p = Some t'"
    and d1: "distinct (addrs k h1 p)" by auto
  from optimize_at_refines [OF t1 d1, of N] obtain res h2 where
    o2: "optimize_at N k p h1 = Some (res, h2)"
    and r: "case res of
              Inl err \<Rightarrow> optimize N t' = Inl err
            | Inr p2 \<Rightarrow> (\<exists>t''. optimize N t' = Inr t'' \<and> tree_at k h2 p2 = Some t''
                             \<and> distinct (addrs k h2 p2))"
    by blast
  from optimize_fixed [OF 1] have f: "optimize N t' = Inr t'" .
  show ?thesis
  proof (cases res)
    case (Inl err)
    with r f show ?thesis by simp
  next
    case (Inr p2)
    with r f have "tree_at k h2 p2 = Some t'" by auto
    with o2 Inr t1 show ?thesis by blast
  qed
qed

subsection \<open>Simplifying twice\<close>

text \<open>
  This subsection is about the function on the store, for any pointer that denotes an
  expression, whether or not nodes are shared. When no block fires on a node whose
  operands are normal, a call on it returns it and leaves the store as it is; and every
  call returns a normal pointer while leaving the nodes below normal pointers untouched.
\<close>

lemma quiet_rewrite:
  assumes a: "a < length h" and n: "h ! a = BinaryNode bl br op"
    and q: "quiet N op (constant_at h bl) (constant_at h br)"
  shows "rewrite_at N k a h = Some (Inr a, h)"
proof (cases "constant_at h bl")
  case None
  note ln = this
  show ?thesis
  proof (cases "constant_at h br")
    case None
    with ln n show ?thesis
      by (cases op) (simp_all add: rewrite_at_def plus_minus_at_def mult_div_at_def)
  next
    case (Some y)
    with ln n q show ?thesis
      by (cases op)
         (simp_all add: rewrite_at_def plus_minus_at_def mult_div_at_def quiet_def
            is_const_eq_def)
  qed
next
  case (Some x)
  note ls = this
  show ?thesis
  proof (cases "constant_at h br")
    case None
    with ls n q show ?thesis
      by (cases op)
         (auto simp: rewrite_at_def plus_minus_at_def mult_div_at_def quiet_def
            is_const_eq_def)
  next
    case (Some y)
    with ls n q show ?thesis
      by (cases op)
         (simp_all add: rewrite_at_def plus_minus_at_def mult_div_at_def quiet_def
            is_const_eq_def zero_block_at_def)
  qed
qed

lemma fold_shape:
  "fold_at N k ep h = Some (Inr p, h') \<Longrightarrow> p = length h \<and> (\<exists>v. h' = h @ [ConstantNode v])"
  by (auto simp: fold_at_def split: option.splits sum.splits)

lemma fresh_fold:
  "fold_at N k ep h = Some (Inr p, h') \<Longrightarrow> length h0 \<le> length h \<Longrightarrow> fresh_result h0 p h'"
  by (auto simp: fresh_result_def dest!: fold_shape)

lemma fresh_alloc: "length h0 \<le> length h \<Longrightarrow> fresh_result h0 (length h) (h @ [ConstantNode v])"
  by (simp add: fresh_result_def)

lemma slip_node:
  assumes "a < length h" and "h ! a = BinaryNode bl br op"
  shows "set_left a (length h) (set_op a MULT h @ [ConstantNode c]) ! a
         = BinaryNode (length h) br MULT"
    and "length (set_left a (length h) (set_op a MULT h @ [ConstantNode c])) = Suc (length h)"
  using assms by (simp_all add: slip_heap)

lemma rewrite_result_PLUS_MINUS:
  assumes rw: "rewrite_at N k a h = Some (Inr p, h')" and a: "a < length h"
    and n: "h ! a = BinaryNode bl br op" and op: "op = PLUS \<or> op = MINUS"
  shows "(h' = h \<and> (p = bl \<or> p = br
            \<or> (p = a \<and> quiet N op (constant_at h bl) (constant_at h br))))
         \<or> fresh_result h p h'"
proof (cases "constant_at h bl")
  case None
  note ln = this
  show ?thesis
  proof (cases "constant_at h br")
    case None
    with ln rw n op show ?thesis
      by (auto simp: rewrite_at_def plus_minus_at_def mult_div_at_def quiet_def
            is_const_eq_def split: if_splits)
  next
    case (Some y)
    with ln rw n op show ?thesis
      by (auto simp: rewrite_at_def plus_minus_at_def mult_div_at_def quiet_def
            is_const_eq_def split: if_splits)
  qed
next
  case (Some x)
  note ls = this
  show ?thesis
  proof (cases "constant_at h br")
    case None
    show ?thesis
    proof (cases "T_eq N x (T_of N 0) \<and> op = MINUS")
      case True
      with ls None rw n slip_node [OF a n, of "T_of N (- 1)"] show ?thesis
        by (auto simp: rewrite_at_def plus_minus_at_def mult_div_at_def fresh_result_def
              simp del: set_left_def)
    next
      case False
      with ls None rw n op show ?thesis
        by (auto simp: rewrite_at_def plus_minus_at_def mult_div_at_def quiet_def
              is_const_eq_def split: if_splits)
    qed
  next
    case (Some y)
    show ?thesis
    proof (cases "T_eq N x (T_of N 0) \<or> T_eq N y (T_of N 0)")
      case True
      with ls Some rw n op a have f: "fold_at N k a h = Some (Inr p, h')"
        by (auto simp: rewrite_at_def plus_minus_at_def mult_div_at_def nth_append
              dest!: fold_shape split: option.splits sum.splits if_splits)
      then show ?thesis using fresh_fold [OF f, of h] by simp
    next
      case False
      with ls Some rw n op show ?thesis
        by (auto simp: rewrite_at_def plus_minus_at_def mult_div_at_def quiet_def
              is_const_eq_def split: if_splits)
    qed
  qed
qed

lemma zero_block_shape:
  assumes "zero_block_at N op x y ep h = Some (Inr p, h')"
  shows "(p = ep \<and> h' = h \<and> (op = MULT \<or> op = DIV \<longrightarrow>
             \<not> T_eq N x (T_of N 0) \<and> \<not> T_eq N y (T_of N 0)))
         \<or> (p = length h \<and> h' = h @ [ConstantNode (T_of N 0)])"
  using assms by (auto simp: zero_block_at_def split: if_splits)

lemma rewrite_result_MULT_DIV:
  assumes rw: "rewrite_at N k a h = Some (Inr p, h')" and a: "a < length h"
    and n: "h ! a = BinaryNode bl br op" and op: "op = MULT \<or> op = DIV"
  shows "(h' = h \<and> (p = bl \<or> p = br
            \<or> (p = a \<and> quiet N op (constant_at h bl) (constant_at h br))))
         \<or> fresh_result h p h'"
proof (cases "constant_at h bl")
  case None
  note ln = this
  show ?thesis
  proof (cases "constant_at h br")
    case None
    with ln rw n op show ?thesis
      by (auto simp: rewrite_at_def plus_minus_at_def mult_div_at_def quiet_def
            is_const_eq_def split: if_splits)
  next
    case (Some y)
    with ln rw n op show ?thesis
      by (auto simp: rewrite_at_def plus_minus_at_def mult_div_at_def quiet_def
            is_const_eq_def fresh_result_def split: if_splits)
  qed
next
  case (Some x)
  note ls = this
  show ?thesis
  proof (cases "constant_at h br")
    case None
    with ls rw n op show ?thesis
      by (auto simp: rewrite_at_def plus_minus_at_def mult_div_at_def quiet_def
            is_const_eq_def fresh_result_def split: if_splits)
  next
    case (Some y)
    from ls Some rw n op obtain r1 h1 where
      z: "zero_block_at N op x y a h = Some (Inr r1, h1)"
      and f: "(if T_eq N x (T_of N 1) \<or> T_eq N y (T_of N 1) then fold_at N k r1 h1
               else Some (Inr r1, h1)) = Some (Inr p, h')"
      by (auto simp: rewrite_at_def plus_minus_at_def mult_div_at_def
            split: option.splits sum.splits)
    from zero_block_shape [OF z] have len: "length h \<le> length h1" by auto
    show ?thesis
    proof (cases "T_eq N x (T_of N 1) \<or> T_eq N y (T_of N 1)")
      case True
      with f have "fold_at N k r1 h1 = Some (Inr p, h')" by simp
      from fresh_fold [OF this len] show ?thesis by simp
    next
      case False
      with f have e: "p = r1" "h' = h1" by simp_all
      from zero_block_shape [OF z] show ?thesis
      proof
        assume "r1 = a \<and> h1 = h \<and> (op = MULT \<or> op = DIV \<longrightarrow>
             \<not> T_eq N x (T_of N 0) \<and> \<not> T_eq N y (T_of N 0))"
        with e op False ls Some show ?thesis
          by (auto simp: quiet_def is_const_eq_def)
      next
        assume "r1 = length h \<and> h1 = h @ [ConstantNode (T_of N 0)]"
        with e show ?thesis by (simp add: fresh_result_def)
      qed
    qed
  qed
qed

lemma rewrite_result:
  assumes rw: "rewrite_at N k a h = Some (Inr p, h')" and a: "a < length h"
    and n: "h ! a = BinaryNode bl br op"
  shows "(h' = h \<and> (p = bl \<or> p = br
            \<or> (p = a \<and> quiet N op (constant_at h bl) (constant_at h br))))
         \<or> fresh_result h p h'"
proof (cases "op = POW")
  case True
  with rw n show ?thesis
    by (auto simp: rewrite_at_def plus_minus_at_def mult_div_at_def quiet_def
          split: option.splits)
next
  case False
  then have "(op = PLUS \<or> op = MINUS) \<or> (op = MULT \<or> op = DIV)" by (cases op) simp_all
  then show ?thesis
    using rewrite_result_PLUS_MINUS [OF rw a n] rewrite_result_MULT_DIV [OF rw a n] by blast
qed

lemma normal_valid: "normal N h a \<Longrightarrow> a < length h"
  by (erule normal.cases) simp_all

lemma normal_children: "normal N h a \<Longrightarrow> c \<in> children (h ! a) \<Longrightarrow> normal N h c"
  by (erule normal.cases) auto

lemma normal_reachable: "b \<in> reachable h a \<Longrightarrow> normal N h a \<Longrightarrow> normal N h b"
  unfolding reachable_def
proof (simp, induction rule: rtrancl_induct)
  case base
  then show ?case .
next
  case (step y z)
  then show ?case by (auto simp: edges_def intro: normal_children)
qed

lemma constant_at_agree: "h' ! c = h ! c \<Longrightarrow> constant_at h' c = constant_at h c"
  by (simp add: constant_at_def)

lemma normal_agree:
  assumes "normal N h q" and "length h \<le> length h'"
    and "\<And>b. b \<in> reachable h q \<Longrightarrow> h' ! b = h ! b"
  shows "normal N h' q"
  using assms
proof (induction rule: normal.induct)
  case (normal_Constant a v)
  from normal_Constant(4) [OF reachable_refl] normal_Constant(1-3) show ?case
    by (intro normal.normal_Constant [of a h' v]) simp_all
next
  case (normal_Var a x)
  from normal_Var(4) [OF reachable_refl] normal_Var(1-3) show ?case
    by (intro normal.normal_Var [of a h' x]) simp_all
next
  case (normal_Mono a e f)
  note ag = normal_Mono(6)
  have la: "a < length h'" using normal_Mono by simp
  have na: "h' ! a = MonoNode e f" using ag [OF reachable_refl] normal_Mono by simp
  have "reachable h e \<subseteq> reachable h a"
    using normal_Mono by (intro reachable_sub) simp_all
  with ag have "\<And>b. b \<in> reachable h e \<Longrightarrow> h' ! b = h ! b" by blast
  with normal_Mono have "normal N h' e" by blast
  with la na show ?case by (rule normal.normal_Mono)
next
  case (normal_Binary a l r op)
  note ag = normal_Binary(9)
  have la: "a < length h'" using normal_Binary by simp
  have na: "h' ! a = BinaryNode l r op" using ag [OF reachable_refl] normal_Binary by simp
  have cl: "l \<in> reachable h a" and cr: "r \<in> reachable h a"
    using normal_Binary by (auto intro: reachable_child)
  have "reachable h l \<subseteq> reachable h a" "reachable h r \<subseteq> reachable h a"
    using normal_Binary(1,2) by (simp_all add: reachable_sub)
  with ag have "\<And>b. b \<in> reachable h l \<Longrightarrow> h' ! b = h ! b"
    "\<And>b. b \<in> reachable h r \<Longrightarrow> h' ! b = h ! b" by blast+
  with normal_Binary have nl: "normal N h' l" and nr: "normal N h' r" by blast+
  from cl cr ag have "constant_at h' l = constant_at h l"
    "constant_at h' r = constant_at h r" by (auto intro: constant_at_agree)
  with normal_Binary have "quiet N op (constant_at h' l) (constant_at h' r)" by simp
  with la na nl nr show ?case by (rule normal.normal_Binary)
qed

lemma normal_reach_agree:
  assumes q: "normal N h q" and ag: "\<And>b. b \<in> reachable h q \<Longrightarrow> h' ! b = h ! b"
    and y: "y \<in> reachable h' q"
  shows "y \<in> reachable h q"
proof -
  from y have "(q, y) \<in> (edges h')\<^sup>*" by (simp add: reachable_def)
  then have "(q, y) \<in> (edges h)\<^sup>*"
  proof (induction rule: rtrancl_induct)
    case base
    then show ?case by simp
  next
    case (step y z)
    from step.IH have yr: "y \<in> reachable h q" by (simp add: reachable_def)
    from normal_reachable [OF yr q] have "y < length h" by (rule normal_valid)
    moreover from step.hyps(2) ag [OF yr] have "z \<in> children (h ! y)"
      by (simp add: edges_def)
    ultimately have "(y, z) \<in> edges h" by (simp add: edges_def)
    with step.IH show ?case by (rule rtrancl_into_rtrancl)
  qed
  then show ?thesis by (simp add: reachable_def)
qed

lemma keeps_normal:
  assumes k: "\<And>b. normal N h b \<Longrightarrow> h' ! b = h ! b" and l: "length h \<le> length h'"
    and q: "normal N h q"
  shows "normal N h' q"
  using q l
proof (rule normal_agree)
  fix b assume "b \<in> reachable h q"
  from normal_reachable [OF this q] show "h' ! b = h ! b" by (rule k)
qed

lemma normal_fixed:
  "normal N h a \<Longrightarrow> tree_at k h a \<noteq> None \<Longrightarrow> optimize_at N k a h = Some (Inr a, h)"
proof (induction k arbitrary: a)
  case 0
  then show ?case by simp
next
  case (Suc k)
  from Suc.prems(1) have a: "a < length h" by (rule normal_valid)
  show ?case
  proof (cases "h ! a")
    case (ConstantNode v)
    with a show ?thesis by simp
  next
    case (VarNode x)
    with a show ?thesis by simp
  next
    case (MonoNode e f)
    then have ce: "e \<in> children (h ! a)" by simp
    from Suc.IH [OF normal_children [OF Suc.prems(1) ce] tree_at_children [OF Suc.prems(2) ce]]
    have "optimize_at N k e h = Some (Inr e, h)" .
    moreover from MonoNode have "h[a := MonoNode e f] = h" by (metis list_update_id)
    ultimately show ?thesis using a MonoNode by (simp add: set_expr_def)
  next
    case (BinaryNode l r op)
    then have cl: "l \<in> children (h ! a)" and cr: "r \<in> children (h ! a)" by simp_all
    from Suc.IH [OF normal_children [OF Suc.prems(1) cl] tree_at_children [OF Suc.prems(2) cl]]
    have 1: "optimize_at N k l h = Some (Inr l, h)" .
    from Suc.IH [OF normal_children [OF Suc.prems(1) cr] tree_at_children [OF Suc.prems(2) cr]]
    have 2: "optimize_at N k r h = Some (Inr r, h)" .
    from BinaryNode have u: "h[a := BinaryNode l r op] = h" by (metis list_update_id)
    from Suc.prems(1) BinaryNode have "quiet N op (constant_at h l) (constant_at h r)"
      by (auto elim: normal.cases)
    from quiet_rewrite [OF a BinaryNode this]
    have "rewrite_at N (Suc k) a h = Some (Inr a, h)" .
    with a BinaryNode 1 2 u show ?thesis by (simp add: set_left_def set_right_def)
  qed
qed

lemma optimize_at_normal:
  "optimize_at N k a h = Some (res, h') \<Longrightarrow> tree_at k h a \<noteq> None
     \<Longrightarrow> (\<forall>b. normal N h b \<longrightarrow> h' ! b = h ! b) \<and> (\<forall>p. res = Inr p \<longrightarrow> normal N h' p)"
proof (induction k arbitrary: a h res h')
  case 0
  then show ?case by simp
next
  case (Suc k)
  note o = Suc.prems(1) and w = Suc.prems(2)
  from w obtain t where t: "tree_at (Suc k) h a = Some t" by auto
  then have a: "a < length h" by (rule tree_at_valid)
  show ?case
  proof (cases "normal N h a")
    case True
    from normal_fixed [OF True w] o have "res = Inr a" "h' = h" by simp_all
    with True show ?thesis by simp
  next
    case False
    then have ne: "b \<noteq> a" if "normal N h b" for b using that by auto
    show ?thesis
    proof (cases "h ! a")
      case (ConstantNode v)
      with a False show ?thesis by (auto dest: normal.normal_Constant)
    next
      case (VarNode x)
      with a False show ?thesis by (auto dest: normal.normal_Var)
    next
      case (MonoNode e f)
      then have ce: "e \<in> children (h ! a)" by simp
      note we = tree_at_children [OF w ce]
      from optimize_at_returns [OF we, of N] obtain r1 h1 where
        c: "optimize_at N k e h = Some (r1, h1)" by blast
      from Suc.IH [OF c we] have k1: "\<And>b. normal N h b \<Longrightarrow> h1 ! b = h ! b"
        and j1: "\<And>p. r1 = Inr p \<Longrightarrow> normal N h1 p" by auto
      from optimize_at_post [OF c] have g1: "grows h h1"
        and pos: "\<And>p. r1 = Inr p \<Longrightarrow> p \<in> reachable h e \<or> length h \<le> p"
        by (auto simp: post_def)
      show ?thesis
      proof (cases r1)
        case (Inl err)
        with o a MonoNode c have "res = Inl err" "h' = h1" by simp_all
        with k1 show ?thesis by simp
      next
        case (Inr e')
        from frame_unreachable [OF c a acyclic_child [OF t ce]] MonoNode
        have n1: "h1 ! a = MonoNode e f" by simp
        from grows_length [OF g1] a have a1: "a < length h1" by simp
        from o a MonoNode c Inr n1 have r: "res = Inr a" and h': "h' = h1[a := MonoNode e' f]"
          by (simp_all add: set_expr_def)
        have x: "a \<notin> reachable h1 e'"
          by (rule not_reachable_after [OF g1 pos [OF Inr] a acyclic_child [OF t ce]])
        have "normal N h' e'"
        proof (rule normal_agree [OF j1 [OF Inr]])
          show "length h1 \<le> length h'" by (simp add: h')
          fix b assume "b \<in> reachable h1 e'"
          with x have "b \<noteq> a" by auto
          then show "h' ! b = h1 ! b" by (simp add: h')
        qed
        with a1 have "normal N h' a"
          by (intro normal.normal_Mono [of a h' e' f]) (simp_all add: h')
        moreover have "h' ! b = h ! b" if "normal N h b" for b
          using ne [OF that] k1 [OF that] by (simp add: h')
        ultimately show ?thesis using r by simp
      qed
    next
      case (BinaryNode l r op)
      then have cl: "l \<in> children (h ! a)" and cr: "r \<in> children (h ! a)" by simp_all
      note wl = tree_at_children [OF w cl]
      from optimize_at_returns [OF wl, of N] obtain r1 h1 where
        c1: "optimize_at N k l h = Some (r1, h1)" and p1: "tpost l h r1 h1" by blast
      from Suc.IH [OF c1 wl] have k1: "\<And>b. normal N h b \<Longrightarrow> h1 ! b = h ! b"
        and j1: "\<And>p. r1 = Inr p \<Longrightarrow> normal N h1 p" by auto
      from optimize_at_post [OF c1] have g1: "grows h h1"
        and pos1: "\<And>p. r1 = Inr p \<Longrightarrow> p \<in> reachable h l \<or> length h \<le> p"
        by (auto simp: post_def)
      show ?thesis
      proof (cases r1)
        case (Inl err)
        with o a BinaryNode c1 have "res = Inl err" "h' = h1" by simp_all
        with k1 show ?thesis by simp
      next
        case (Inr l')
        from frame_unreachable [OF c1 a acyclic_child [OF t cl]] BinaryNode
        have n1: "h1 ! a = BinaryNode l r op" by simp
        from p1 Inr have d1: "deep h h1" and s1: "shallow h1 l l'" by (auto simp: tpost_def)
        from grows_length [OF g1] a have a1: "a < length h1" by simp
        define h2 where "h2 = h1[a := BinaryNode l' r op]"
        have h2: "set_left a l' h1 = h2" using n1 by (simp add: set_left_def h2_def)
        have n2: "h2 ! a = BinaryNode l' r op" using a1 by (simp add: h2_def)
        have a2: "a < length h2" using a1 by (simp add: h2_def)
        have l2: "length h \<le> length h2" using grows_length [OF g1] by (simp add: h2_def)
        have d12: "deep h1 h2"
          unfolding h2_def
        proof (rule deep_update [OF a1])
          fix j c' assume wj: "tree_at (Suc j) h1 a \<noteq> None"
            and c': "c' \<in> children (BinaryNode l' r op)"
          from tree_at_children [OF wj, of l] n1 have "tree_at j h1 l \<noteq> None" by simp
          from shallowD [OF s1 this] have "tree_at j h1 l' \<noteq> None" .
          moreover from tree_at_children [OF wj, of r] n1 have "tree_at j h1 r \<noteq> None" by simp
          ultimately show "tree_at j h1 c' \<noteq> None" using c' by auto
        qed
        from d1 d12 have d2: "deep h h2" by (rule deep_trans)
        from deepD [OF d2 w] obtain t2 where t2: "tree_at (Suc k) h2 a = Some t2" by auto
        have cr2: "r \<in> children (h2 ! a)" using n2 by simp
        from t2 have w2: "tree_at (Suc k) h2 a \<noteq> None" by simp
        note wr = tree_at_children [OF w2 cr2]
        from optimize_at_returns [OF wr, of N] obtain r3 h3 where
          c2: "optimize_at N k r h2 = Some (r3, h3)" by blast
        from Suc.IH [OF c2 wr] have k23: "\<And>b. normal N h2 b \<Longrightarrow> h3 ! b = h2 ! b"
          and j3: "\<And>p. r3 = Inr p \<Longrightarrow> normal N h3 p" by auto
        from optimize_at_post [OF c2] have g23: "grows h2 h3"
          and pos3: "\<And>p. r3 = Inr p \<Longrightarrow> p \<in> reachable h2 r \<or> length h2 \<le> p"
          by (auto simp: post_def)
        have k2: "h2 ! b = h ! b" if "normal N h b" for b
          using ne [OF that] k1 [OF that] by (simp add: h2_def)
        have k3: "h3 ! b = h ! b" if "normal N h b" for b
          using k23 [OF keeps_normal [OF k2 l2 that]] k2 [OF that] by simp
        show ?thesis
        proof (cases r3)
          case (Inl err)
          with o a BinaryNode c1 \<open>r1 = Inr l'\<close> h2 n2 c2 have "res = Inl err" "h' = h3"
            by simp_all
          with k3 show ?thesis by simp
        next
          case (Inr r')
          from frame_unreachable [OF c2 a2 acyclic_child [OF t2 cr2]] n2
          have n3: "h3 ! a = BinaryNode l' r op" by simp
          from grows_length [OF g23] a2 have a3: "a < length h3" by simp
          define h4 where "h4 = h3[a := BinaryNode l' r' op]"
          have h4: "set_right a r' h3 = h4" using n3 by (simp add: set_right_def h4_def)
          have n4: "h4 ! a = BinaryNode l' r' op" using a3 by (simp add: h4_def)
          have a4: "a < length h4" using a3 by (simp add: h4_def)
          from o a BinaryNode c1 \<open>r1 = Inr l'\<close> h2 n2 c2 Inr h4
          have rw: "rewrite_at N (Suc k) a h4 = Some (res, h')" by simp
          from post_rewrite [OF rw a4] have f5: "frame {a} h4 h'" by (simp add: post_def)
          have k5: "h' ! b = h ! b" if "normal N h b" for b
          proof -
            from normal_valid [OF that] l2 grows_length [OF g23] have "b < length h4"
              by (simp add: h4_def)
            with f5 ne [OF that] have "h' ! b = h4 ! b" by (simp add: frame_def)
            with ne [OF that] k3 [OF that] show ?thesis by (simp add: h4_def)
          qed
          have "normal N h' p" if p: "res = Inr p" for p
          proof -
            note nl1 = j1 [OF \<open>r1 = Inr l'\<close>]
            have x1: "a \<notin> reachable h1 l'"
              by (rule not_reachable_after
                    [OF g1 pos1 [OF \<open>r1 = Inr l'\<close>] a acyclic_child [OF t cl]])
            have ag1: "h2 ! b = h1 ! b" if "b \<in> reachable h1 l'" for b
            proof -
              from that x1 have "b \<noteq> a" by auto
              then show ?thesis by (simp add: h2_def)
            qed
            have nl2: "normal N h2 l'"
              by (rule normal_agree [OF nl1 _ ag1]) (simp_all add: h2_def)
            have x2: "a \<notin> reachable h2 l'"
              using normal_reach_agree [OF nl1 ag1] x1 by blast
            have ag2: "h3 ! b = h2 ! b" if "b \<in> reachable h2 l'" for b
              using k23 [OF normal_reachable [OF that nl2]] .
            have nl3: "normal N h3 l'"
              by (rule normal_agree [OF nl2 grows_length [OF g23] ag2])
            have x3: "a \<notin> reachable h3 l'"
              using normal_reach_agree [OF nl2 ag2] x2 by blast
            have y3: "a \<notin> reachable h3 r'"
              by (rule not_reachable_after [OF g23 pos3 [OF Inr] a2 acyclic_child [OF t2 cr2]])
            have nl4: "normal N h4 l'"
            proof (rule normal_agree [OF nl3])
              show "length h3 \<le> length h4" by (simp add: h4_def)
              fix b assume "b \<in> reachable h3 l'"
              with x3 have "b \<noteq> a" by auto
              then show "h4 ! b = h3 ! b" by (simp add: h4_def)
            qed
            have nr4: "normal N h4 r'"
            proof (rule normal_agree [OF j3 [OF Inr]])
              show "length h3 \<le> length h4" by (simp add: h4_def)
              fix b assume "b \<in> reachable h3 r'"
              with y3 have "b \<noteq> a" by auto
              then show "h4 ! b = h3 ! b" by (simp add: h4_def)
            qed
            from rw p have "rewrite_at N (Suc k) a h4 = Some (Inr p, h')" by simp
            from rewrite_result [OF this a4 n4] show ?thesis
            proof
              assume "h' = h4 \<and> (p = l' \<or> p = r'
                \<or> (p = a \<and> quiet N op (constant_at h4 l') (constant_at h4 r')))"
              with nl4 nr4 normal.normal_Binary [OF a4 n4 nl4 nr4] show ?thesis by auto
            next
              assume "fresh_result h4 p h'"
              then show ?thesis by (auto simp: fresh_result_def intro: normal.normal_Constant)
            qed
          qed
          with k5 show ?thesis by simp
        qed
      qed
    qed
  qed
qed

lemma shared_tree_3:
  "tree_at 3 shared_heap 3 =
     Some (BinaryExpression
             (BinaryExpression (ConstantExpression 0) (VarExpression ''x'') MINUS)
             (BinaryExpression (ConstantExpression 0) (VarExpression ''x'') MINUS) PLUS)"
  by (simp add: shared_heap_def eval_nat_numeral)

lemma shared_optimize_at:
  "optimize_at double_numeric 3 3 shared_heap = Some (Inr 2, shared_heap')"
  by (simp add: shared_heap_def shared_heap'_def heap_eval)

lemma shared_optimize:
  "optimize double_numeric
     (BinaryExpression
        (BinaryExpression (ConstantExpression 0) (VarExpression ''x'') MINUS)
        (BinaryExpression (ConstantExpression 0) (VarExpression ''x'') MINUS) PLUS)
   = Inr (ConstantExpression 0)"
  by (simp add: rewrite_binary_def plus_minus_block_def mult_div_block_def zero_block_def
        resolve_def fold_expr_def double_numeric_def apply_Operation_def Let_def)

text \<open>
  Claim C8. \<open>optimize\<close> is idempotent. For every pointer that denotes an expression, with
  any sharing of nodes among its subexpressions and with the rest of the store, the call
  returns; and when it returns a pointer, that pointer denotes an expression, and
  \<open>optimize\<close> on it returns the same pointer and leaves the store as it is. So the
  expression returned by the second call is the one returned by the first. When the first
  call throws there is no result to simplify again. The statement holds for every numeric
  type.
\<close>

theorem optimize_at_idempotent:
  assumes "tree_at k h e = Some t"
  shows "\<exists>res h1. optimize_at N k e h = Some (res, h1)
           \<and> (\<forall>p. res = Inr p \<longrightarrow>
                 (\<exists>t'. tree_at k h1 p = Some t') \<and> optimize_at N k p h1 = Some (Inr p, h1))"
proof -
  from assms have w: "tree_at k h e \<noteq> None" by simp
  from optimize_at_returns [OF w, of N] obtain res h1 where
    o: "optimize_at N k e h = Some (res, h1)" and tp: "tpost e h res h1" by blast
  have "(\<exists>t'. tree_at k h1 p = Some t') \<and> optimize_at N k p h1 = Some (Inr p, h1)"
    if p: "res = Inr p" for p
  proof -
    from tp p have "deep h h1" and "shallow h1 e p" by (auto simp: tpost_def)
    from shallowD [OF this(2) deepD [OF this(1) w]] have wp: "tree_at k h1 p \<noteq> None" .
    from optimize_at_normal [OF o w] p have "normal N h1 p" by simp
    from normal_fixed [OF this wp] wp show ?thesis by auto
  qed
  with o show ?thesis by blast
qed

theorem optimize_at_idempotent_witness:
  "tree_at 3 shared_heap 3 =
     Some (BinaryExpression
             (BinaryExpression (ConstantExpression 0) (VarExpression ''x'') MINUS)
             (BinaryExpression (ConstantExpression 0) (VarExpression ''x'') MINUS) PLUS)
   \<and> optimize_at double_numeric 3 3 shared_heap = Some (Inr 2, shared_heap')
   \<and> tree_at 3 shared_heap' 2
       = Some (BinaryExpression (ConstantExpression (- 1)) (VarExpression ''x'') MULT)
   \<and> optimize_at double_numeric 3 2 shared_heap' = Some (Inr 2, shared_heap')"
proof -
  from optimize_at_idempotent [OF shared_tree_3, of double_numeric] shared_optimize_at
  have "optimize_at double_numeric 3 2 shared_heap' = Some (Inr 2, shared_heap')" by auto
  moreover have "tree_at 3 shared_heap' 2
       = Some (BinaryExpression (ConstantExpression (- 1)) (VarExpression ''x'') MULT)"
    by (simp add: shared_heap'_def eval_nat_numeral)
  ultimately show ?thesis using shared_tree_3 shared_optimize_at by simp
qed

subsection \<open>What optimize does to existing nodes\<close>

lemma example_tree_6:
  "tree_at 4 example_heap 6 =
     Some (BinaryExpression
             (BinaryExpression
                (BinaryExpression (VarExpression ''x'') (ConstantExpression 0) PLUS)
                (VarExpression ''y'') PLUS)
             (ConstantExpression 2) MULT)"
  by (simp add: example_heap_def eval_nat_numeral)

lemma example_unreachable: "7 \<notin> reachable example_heap 6"
proof
  assume "7 \<in> reachable example_heap 6"
  then have "(6, 7) \<in> (edges example_heap)\<^sup>*" by (simp add: reachable_def)
  moreover have "(6, y) \<in> (edges example_heap)\<^sup>* \<Longrightarrow> y < 7" for y
    by (induction rule: rtrancl_induct)
       (auto simp: edges_def example_heap_def nth_Cons' split: if_splits)
  ultimately show False by blast
qed

text \<open>
  Claim C9, as stated, fails: \<open>optimize\<close> assigns the optimised operands to the fields of
  the nodes it visits. On the example store, the call at index 6 overwrites the left
  pointer of the shared node at index 4; afterwards the original pointer denotes
  (x + y) * 2 and no longer ((x + 0) + y) * 2, and the other expression, which the call was
  not given, denotes sin(x + y) and no longer sin((x + 0) + y).
\<close>

theorem optimize_at_changes_existing_nodes:
  "tree_at 4 example_heap 6 =
     Some (BinaryExpression
             (BinaryExpression
                (BinaryExpression (VarExpression ''x'') (ConstantExpression 0) PLUS)
                (VarExpression ''y'') PLUS)
             (ConstantExpression 2) MULT)
   \<and> tree_at 4 example_heap 7 =
       Some (MonoExpression
               (BinaryExpression
                  (BinaryExpression (VarExpression ''x'') (ConstantExpression 0) PLUS)
                  (VarExpression ''y'') PLUS)
               SIN)
   \<and> optimize_at double_numeric 4 6 example_heap = Some (Inr 6, example_heap')
   \<and> tree_at 4 example_heap' 6 =
       Some (BinaryExpression
               (BinaryExpression (VarExpression ''x'') (VarExpression ''y'') PLUS)
               (ConstantExpression 2) MULT)
   \<and> tree_at 4 example_heap' 7 =
       Some (MonoExpression
               (BinaryExpression (VarExpression ''x'') (VarExpression ''y'') PLUS) SIN)
   \<and> example_heap' ! 4 \<noteq> example_heap ! 4"
  by (simp add: example_heap_def example_heap'_def eval_nat_numeral set_left_def
      set_right_def set_expr_def set_op_def rewrite_at_def plus_minus_at_def mult_div_at_def
      zero_block_at_def fold_at_def constant_at_def double_numeric_def)

text \<open>
  Claim C9, amended. Given a pointer that denotes an expression, \<open>optimize\<close> returns, and
  what it leaves untouched is this: every constant and variable node; the kind of every
  node and the function of every function node; and every node that is not reachable from
  the pointer it was given. What it may overwrite are the operand pointers and the
  operation of function and binary nodes reachable from that pointer. No node is removed,
  and the nodes it makes are constants.
\<close>

theorem optimize_at_effect:
  assumes "tree_at k h e = Some t"
  shows "\<exists>res h'. optimize_at N k e h = Some (res, h')
           \<and> length h \<le> length h'
           \<and> (\<forall>b<length h. same_kind (h ! b) (h' ! b))
           \<and> (\<forall>b<length h. b \<notin> reachable h e \<longrightarrow> h' ! b = h ! b)
           \<and> (\<forall>b. length h \<le> b \<and> b < length h' \<longrightarrow> (\<exists>v. h' ! b = ConstantNode v))"
proof -
  from assms have "tree_at k h e \<noteq> None" by simp
  from optimize_at_returns [OF this, of N] obtain res h' where
    o: "optimize_at N k e h = Some (res, h')" by blast
  from optimize_at_post [OF o] have g: "grows h h'" and f: "frame (reachable h e) h h'"
    by (simp_all add: post_def)
  from g have "length h \<le> length h'"
    and "\<forall>b<length h. same_kind (h ! b) (h' ! b)"
    and "\<forall>b. length h \<le> b \<and> b < length h' \<longrightarrow> (\<exists>v. h' ! b = ConstantNode v)"
    by (simp_all add: grows_def)
  moreover from f have "\<forall>b<length h. b \<notin> reachable h e \<longrightarrow> h' ! b = h ! b"
    by (simp add: frame_def)
  ultimately show ?thesis using o by blast
qed

theorem optimize_at_effect_witness:
  "tree_at 4 example_heap 6 =
     Some (BinaryExpression
             (BinaryExpression
                (BinaryExpression (VarExpression ''x'') (ConstantExpression 0) PLUS)
                (VarExpression ''y'') PLUS)
             (ConstantExpression 2) MULT)
   \<and> (\<exists>res h'. optimize_at double_numeric 4 6 example_heap = Some (res, h')
         \<and> h' ! 7 = MonoNode 4 SIN \<and> h' ! 0 = VarNode ''x'' \<and> h' ! 1 = ConstantNode 0)"
proof -
  from optimize_at_effect [OF example_tree_6, of double_numeric] obtain res h' where
    o: "optimize_at double_numeric 4 6 example_heap = Some (res, h')"
    and k: "\<forall>b<length example_heap. same_kind (example_heap ! b) (h' ! b)"
    and f: "\<forall>b<length example_heap. b \<notin> reachable example_heap 6 \<longrightarrow> h' ! b = example_heap ! b"
    by blast
  have l: "length example_heap = 8" by (simp add: example_heap_def)
  from f l example_unreachable have "h' ! 7 = example_heap ! 7" by simp
  then have "h' ! 7 = MonoNode 4 SIN" by (simp add: example_heap_def)
  moreover from k l have "same_kind (example_heap ! 0) (h' ! 0)" by simp
  then have "h' ! 0 = VarNode ''x''" by (simp add: example_heap_def)
  moreover from k l have "same_kind (example_heap ! 1) (h' ! 1)" by simp
  then have "h' ! 1 = ConstantNode 0" by (simp add: example_heap_def)
  ultimately show ?thesis using o example_tree_6 by blast
qed

end
